theory Spec2Isabelle
  imports Complex_Main "HOL-Library.Monad_Syntax" "HOL-Library.Log_Nat"
begin

section \<open>Numbers and array reads\<close>

text \<open>
  The TypeScript sources compute with the JavaScript \<open>number\<close> type.  The model of the
  whole simplifier, in the sections that follow, reads a \<open>number\<close> as an exact real:
  there rounding, overflow, infinities and NaN are outside the model, and what is proved
  from it are the properties of the tag table, of the route and of the traces, and the
  values of runs whose arithmetic is exact.  Where the source can produce a non-finite
  value and tests for it (\<open>Geometry.intersection\<close> followed by \<open>isSingular\<close>) the
  non-finite result is the value \<open>None\<close>.  The arithmetic of \<open>LineFitter\<close>, \<open>Line\<close> and
  \<open>ErrorBox\<close> is modelled a second time with binary64 rounding, in a section of its own,
  for the statements that depend on the rounding.  Indices and the integer fields of a
  tag are \<open>nat\<close> or \<open>int\<close>.

  A JavaScript array read out of range yields \<open>undefined\<close>; what follows is a
  \<open>TypeError\<close> (property access) or a NaN (arithmetic).  Both are outside the numeric
  model, so a function that performs such a read returns \<open>None\<close>.
\<close>

definition nth_opt :: "'a list \<Rightarrow> int \<Rightarrow> 'a option" where
  "nth_opt xs i = (if 0 \<le> i \<and> i < int (length xs) then Some (xs ! nat i) else None)"

definition EPSILON :: real where
  \<comment> \<open>\<open>Number.EPSILON\<close>\<close>
  "EPSILON = 1 / 2 ^ 52"

section \<open>math.ts: vectors and the geometry kernel\<close>

record PVector =
  px :: real
  py :: real

definition magSq :: "PVector \<Rightarrow> real" where
  "magSq v = px v * px v + py v * py v"

definition sub :: "PVector \<Rightarrow> PVector \<Rightarrow> PVector" where
  "sub a b = \<lparr>px = px a - px b, py = py a - py b\<rparr>"

definition per :: "PVector \<Rightarrow> PVector \<Rightarrow> real" where
  "per u v = px u * py v - px v * py u"

definition span_vec :: "PVector \<Rightarrow> PVector \<Rightarrow> PVector" where
  "span_vec a b = sub b a"

definition distSq :: "PVector \<Rightarrow> PVector \<Rightarrow> real" where
  "distSq a b = (let dx = px a - px b; dy = py a - py b in dx * dx + dy * dy)"

text \<open>
  Modelled from the spec: \<open>PVector.dot\<close> is called by \<open>PathSimplifier.isPioneer\<close> but
  \<open>math.ts\<close> does not declare it.  The spec calls the two values "dot products"; it is the
  scalar product of the two vectors.
\<close>

definition dot :: "PVector \<Rightarrow> PVector \<Rightarrow> real" where
  "dot u v = px u * px v + py u * py v"

definition side :: "PVector \<Rightarrow> PVector \<Rightarrow> PVector \<Rightarrow> real" where
  "side a b p = per (span_vec a b) (span_vec a p)"

definition intersect :: "PVector \<Rightarrow> PVector \<Rightarrow> PVector \<Rightarrow> PVector \<Rightarrow> bool" where
  "intersect a b c d =
    (let ab = span_vec a b; ac = span_vec a c; ad = span_vec a d;
         sab = per ab ac * per ab ad
     in if sab > 0 then False
        else
          let cd = span_vec c d; cb = span_vec c b;
              scd = per cd ac * per cd cb
          in if scd < 0 then False
             else if sab = 0 \<and> scd = 0 then
               (let abSq = magSq ab in magSq ac \<le> abSq \<or> magSq ad < abSq)
             else True)"

section \<open>line.ts: implicit lines and their coordinate systems\<close>

record Line =
  la :: real
  lb :: real
  lc :: real

record LVector =
  lv_s :: real
  lv_t :: real

definition origin :: "Line \<Rightarrow> PVector" where
  "origin l = (let a = la l; b = lb l; c = lc l; c1 = - c / (a * a + b * b)
               in \<lparr>px = a * c1, py = b * c1\<rparr>)"

definition tangent :: "Line \<Rightarrow> PVector" where
  "tangent l = \<lparr>px = - lb l, py = la l\<rparr>"

definition normal :: "Line \<Rightarrow> PVector" where
  "normal l = \<lparr>px = la l, py = lb l\<rparr>"

definition map_line :: "Line \<Rightarrow> PVector \<Rightarrow> LVector" where
  "map_line l p =
    (let a = la l; b = lb l; c = lc l;
         c1 = a * a + b * b;
         t = (a * px p + b * py p + c) / c1;
         c2 = c / c1 - t;
         s = (if \<bar>a\<bar> > \<bar>b\<bar> then (py p + b * c2) / a else - (px p + a * c2) / b)
     in \<lparr>lv_s = s, lv_t = t\<rparr>)"

definition unmapc :: "Line \<Rightarrow> real \<Rightarrow> real \<Rightarrow> PVector" where
  "unmapc l s t =
    (let a = la l; b = lb l; c = lc l;
         c1 = t - c / (a * a + b * b)
     in \<lparr>px = c1 * a - s * b, py = c1 * b + s * a\<rparr>)"

definition unmap :: "Line \<Rightarrow> LVector \<Rightarrow> PVector" where
  "unmap l v = unmapc l (lv_s v) (lv_t v)"

definition remapc :: "Line \<Rightarrow> Line \<Rightarrow> real \<Rightarrow> real \<Rightarrow> LVector" where
  \<comment> \<open>\<open>this.remapc(other, s, t)\<close>: the receiver is the first argument\<close>
  "remapc this other s t = map_line this (unmapc other s t)"

definition remap :: "Line \<Rightarrow> Line \<Rightarrow> LVector \<Rightarrow> LVector" where
  "remap this other v = remapc this other (lv_s v) (lv_t v)"

subsection \<open>Projection and intersection of lines (math.ts)\<close>

definition project :: "PVector \<Rightarrow> Line \<Rightarrow> PVector" where
  "project p l =
    (let t = - (la l * px p + lb l * py p + lc l) / (la l * la l + lb l * lb l)
     in \<lparr>px = px p + t * la l, py = py p + t * lb l\<rparr>)"

text \<open>
  \<open>Geometry.intersection\<close> solves the 2x2 system by elimination with full pivoting.  In
  JavaScript a zero pivot \<open>a11\<close> or a zero reduced coefficient \<open>a22\<close> makes \<open>x2\<close> (and then
  \<open>x1\<close>) infinite or NaN, which is what \<open>isSingular\<close> detects afterwards; here that
  outcome is \<open>None\<close>, and \<open>Some p\<close> is a point with finite coordinates.
\<close>

definition intersection :: "Line \<Rightarrow> Line \<Rightarrow> PVector option" where
  "intersection l1 l2 =
    (let a11 = la l1; a12 = lb l1; b1 = - lc l1;
         a21 = la l2; a22 = lb l2; b2 = - lc l2;
         (a11, a12, b1, a21, a22, b2) =
           (if max \<bar>a11\<bar> \<bar>a12\<bar> < max \<bar>a21\<bar> \<bar>a22\<bar>
            then (a21, a22, b2, a11, a12, b1)
            else (a11, a12, b1, a21, a22, b2));
         (a11, a12, a21, a22, swapResult) =
           (if \<bar>a11\<bar> < \<bar>a12\<bar>
            then (a12, a11, a22, a21, True)
            else (a11, a12, a21, a22, False))
     in if a11 = 0 then None
        else
          let a22 = a22 - a12 * a21 / a11;
              b2 = b2 - b1 * a21 / a11
          in if a22 = 0 then None
             else
               let x2 = b2 / a22;
                   x1 = (b1 - a12 * x2) / a11
               in Some (if swapResult then \<lparr>px = x2, py = x1\<rparr> else \<lparr>px = x1, py = x2\<rparr>))"

section \<open>line\_fitter.ts: least-squares lines from prefix sums\<close>

record LineFitter =
  lf_pathLength :: nat
  sumsX :: "real list"
  sumsY :: "real list"
  sumsXX :: "real list"
  sumsYY :: "real list"
  sumsXY :: "real list"

definition LineFitter_onClear :: LineFitter where
  "LineFitter_onClear =
     \<lparr>lf_pathLength = 0, sumsX = [0], sumsY = [0], sumsXX = [0], sumsYY = [0], sumsXY = [0]\<rparr>"

definition LineFitter_onAddPoint :: "LineFitter \<Rightarrow> PVector \<Rightarrow> LineFitter option" where
  "LineFitter_onAddPoint f p =
    (let x = px p; y = py p; i = int (lf_pathLength f) in
     do {
       sx \<leftarrow> nth_opt (sumsX f) i;
       sy \<leftarrow> nth_opt (sumsY f) i;
       sxx \<leftarrow> nth_opt (sumsXX f) i;
       syy \<leftarrow> nth_opt (sumsYY f) i;
       sxy \<leftarrow> nth_opt (sumsXY f) i;
       Some \<lparr>lf_pathLength = lf_pathLength f + 1,
             sumsX = sumsX f @ [sx + x],
             sumsY = sumsY f @ [sy + y],
             sumsXX = sumsXX f @ [sxx + x * x],
             sumsYY = sumsYY f @ [syy + y * y],
             sumsXY = sumsXY f @ [sxy + x * y]\<rparr>
     })"

definition rangeSum :: "real list \<Rightarrow> int \<Rightarrow> int \<Rightarrow> real option" where
  "rangeSum ss i j = do {
     hi \<leftarrow> nth_opt ss (j + 1);
     lo \<leftarrow> nth_opt ss i;
     Some (hi - lo)
   }"

definition fitLine_static :: "real \<Rightarrow> real \<Rightarrow> real \<Rightarrow> real \<Rightarrow> real \<Rightarrow> int \<Rightarrow> Line" where
  "fitLine_static sumX sumY sumXX sumYY sumXY n =
    (if n \<le> 0 then \<lparr>la = 1, lb = - 1, lc = 0\<rparr>
     else
       let fa = max (of_int n * sumXX - sumX * sumX) 0;
           fb = max (of_int n * sumYY - sumY * sumY) 0
       in if fa \<le> EPSILON \<and> fb \<le> EPSILON
          then \<lparr>la = - 1, lb = - 1, lc = (sumX + sumY) / of_int n\<rparr>
          else if fa < fb then
            (let a = 1;
                 b = (sumX * sumY - of_int n * sumXY) / fb;
                 c = - (sumY * b + sumX) / of_int n
             in \<lparr>la = a, lb = b, lc = c\<rparr>)
          else
            (let a = (sumX * sumY - of_int n * sumXY) / fa;
                 b = 1;
                 c = - (sumX * a + sumY) / of_int n
             in \<lparr>la = a, lb = b, lc = c\<rparr>))"

text \<open>
  The instance method reads the five range sums first.  With all reads in range it is the
  static function; with a read out of range the arguments are NaN, which the static
  function ignores only on its \<open>n \<le> 0\<close> branch.
\<close>

definition fitLine :: "LineFitter \<Rightarrow> int \<Rightarrow> int \<Rightarrow> Line option" where
  "fitLine f i j =
    (case (rangeSum (sumsX f) i j, rangeSum (sumsY f) i j, rangeSum (sumsXX f) i j,
           rangeSum (sumsYY f) i j, rangeSum (sumsXY f) i j) of
       (Some sx, Some sy, Some sxx, Some syy, Some sxy) \<Rightarrow>
          Some (fitLine_static sx sy sxx syy sxy (j - i + 1))
     | _ \<Rightarrow> if j - i + 1 \<le> 0 then Some \<lparr>la = 1, lb = - 1, lc = 0\<rparr> else None)"

section \<open>simple\_path\_hull.ts: online convex hull of a simple polyline\<close>

text \<open>
  The hull is a doubly linked ring of heap objects that the simplifier keeps references
  into (\<open>nj\<close>, \<open>ni\<close>) while later offers rewrite their links and validity flags.  The heap
  is an arena: a list of node records, a node reference is its index, and a new node takes
  the next free index.
\<close>

record SimplePathHullNode =
  node_pos :: PVector
  node_prev :: nat
  node_next :: nat
  node_isValid :: bool

record SimplePathHull =
  hull_nodes :: "SimplePathHullNode list"
  hull_first :: "nat option"
  hull_size :: int

definition get_node :: "SimplePathHullNode list \<Rightarrow> nat \<Rightarrow> SimplePathHullNode option" where
  "get_node ns k = nth_opt ns (int k)"

definition SimplePathHull_new :: SimplePathHull where
  "SimplePathHull_new = \<lparr>hull_nodes = [], hull_first = None, hull_size = 0\<rparr>"

definition makeNode ::
  "SimplePathHullNode list \<Rightarrow> PVector \<Rightarrow> nat option \<Rightarrow> nat option
    \<Rightarrow> (SimplePathHullNode list \<times> nat) option" where
  \<comment> \<open>an absent neighbour (\<open>prev ?? node\<close>) is the new node itself;
      \<open>node.prev.next = node.next.prev = node\<close> assigns right to left\<close>
  "makeNode ns p prev nxt =
    (let k = length ns;
         pr = (case prev of None \<Rightarrow> k | Some q \<Rightarrow> q);
         nx = (case nxt of None \<Rightarrow> k | Some q \<Rightarrow> q);
         ns1 = ns @ [\<lparr>node_pos = p, node_prev = pr, node_next = nx, node_isValid = True\<rparr>]
     in do {
       nn \<leftarrow> get_node ns1 nx;
       let ns2 = ns1[nx := nn\<lparr>node_prev := k\<rparr>];
       pn \<leftarrow> get_node ns2 pr;
       Some (ns2[pr := pn\<lparr>node_next := k\<rparr>], k)
     })"

partial_function (option) seek_n0 ::
  "SimplePathHullNode list \<Rightarrow> nat \<Rightarrow> PVector \<Rightarrow> nat \<Rightarrow> nat option" where
  "seek_n0 ns first p n0 = do {
     n \<leftarrow> get_node ns n0;
     if node_prev n \<noteq> first then do {
       q \<leftarrow> get_node ns (node_prev n);
       if side (node_pos n) (node_pos q) p \<ge> 0
       then seek_n0 ns first p (node_prev n)
       else Some n0
     } else Some n0
   }"

partial_function (option) seek_n1 ::
  "SimplePathHullNode list \<Rightarrow> nat \<Rightarrow> PVector \<Rightarrow> nat \<Rightarrow> nat option" where
  "seek_n1 ns first p n1 = do {
     n \<leftarrow> get_node ns n1;
     if node_next n \<noteq> first then do {
       q \<leftarrow> get_node ns (node_next n);
       if side (node_pos n) (node_pos q) p \<le> 0
       then seek_n1 ns first p (node_next n)
       else Some n1
     } else Some n1
   }"

partial_function (option) evict ::
  "SimplePathHullNode list \<Rightarrow> int \<Rightarrow> nat \<Rightarrow> nat \<Rightarrow> (SimplePathHullNode list \<times> int) option" where
  "evict ns sz n n1 =
    (if n \<noteq> n1 then do {
       nd \<leftarrow> get_node ns n;
       evict (ns[n := nd\<lparr>node_isValid := False\<rparr>]) (sz - 1) (node_next nd) n1
     } else Some (ns, sz))"

declare seek_n0.simps [code] seek_n1.simps [code] evict.simps [code]

text \<open>
  \<open>offer_links\<close> is the body of \<open>offer\<close> up to its last statement.  That last statement,
  \<open>this.first?.pos === p\<close>, compares object identities: it holds when \<open>first\<close> is the node
  this call has made for \<open>p\<close> (every offered point being an object of its own), that is, the
  node at the index that was free when the call began.
\<close>

definition offer_links :: "SimplePathHull \<Rightarrow> PVector \<Rightarrow> SimplePathHull option" where
  "offer_links h p =
    (let ns = hull_nodes h in
     if hull_size h \<ge> 3 then do {
       first \<leftarrow> hull_first h;
       n0 \<leftarrow> seek_n0 ns first p first;
       n1 \<leftarrow> seek_n1 ns first p first;
       if n0 \<noteq> n1 then do {
         nd0 \<leftarrow> get_node ns n0;
         (ns1, sz) \<leftarrow> evict ns (hull_size h) (node_next nd0) n1;
         (ns2, k) \<leftarrow> makeNode ns1 p (Some n0) (Some n1);
         Some \<lparr>hull_nodes = ns2, hull_first = Some k, hull_size = sz\<rparr>
       } else Some h
     }
     else if hull_size h = 0 then do {
       (ns1, k) \<leftarrow> makeNode ns p None None;
       Some (h\<lparr>hull_nodes := ns1, hull_first := Some k\<rparr>)
     }
     else if hull_size h = 1 then do {
       (ns1, k) \<leftarrow> makeNode ns p (hull_first h) (hull_first h);
       Some (h\<lparr>hull_nodes := ns1, hull_first := Some k\<rparr>)
     }
     else do {
       first \<leftarrow> hull_first h;
       fn \<leftarrow> get_node ns first;
       nn \<leftarrow> get_node ns (node_next fn);
       let s = side (node_pos fn) (node_pos nn) p in
       if s < 0 then do {
         (ns1, k) \<leftarrow> makeNode ns p (Some first) (Some (node_next fn));
         Some (h\<lparr>hull_nodes := ns1, hull_first := Some k\<rparr>)
       }
       else if s > 0 then do {
         (ns1, k) \<leftarrow> makeNode ns p (Some (node_prev fn)) (Some first);
         Some (h\<lparr>hull_nodes := ns1, hull_first := Some k\<rparr>)
       }
       else do {
         (ns1, k) \<leftarrow> makeNode (ns[first := fn\<lparr>node_isValid := False\<rparr>]) p
                        (Some (node_prev fn)) (Some (node_next fn));
         Some \<lparr>hull_nodes = ns1, hull_first = Some k, hull_size = hull_size h - 1\<rparr>
       }
     })"

definition offer :: "SimplePathHull \<Rightarrow> PVector \<Rightarrow> (nat option \<times> SimplePathHull) option" where
  "offer h p = do {
     h1 \<leftarrow> offer_links h p;
     if hull_first h1 = Some (length (hull_nodes h))
     then Some (hull_first h1, h1\<lparr>hull_size := hull_size h1 + 1\<rparr>)
     else Some (None, h1)
   }"

section \<open>path\_simplifier.ts: the error box\<close>

record ErrorBox =
  eb_line :: Line
  eb_s0 :: real
  eb_s1 :: real
  eb_t0 :: real
  eb_t1 :: real

definition ErrorBox_new :: "Line \<Rightarrow> PVector \<Rightarrow> ErrorBox" where
  "ErrorBox_new line p =
    (let l = map_line line p
     in \<lparr>eb_line = line, eb_s0 = lv_s l, eb_s1 = lv_s l, eb_t0 = lv_t l, eb_t1 = lv_t l\<rparr>)"

definition min5 :: "real \<Rightarrow> real \<Rightarrow> real \<Rightarrow> real \<Rightarrow> real \<Rightarrow> real" where
  "min5 a b c d e = min a (min b (min c (min d e)))"

definition max5 :: "real \<Rightarrow> real \<Rightarrow> real \<Rightarrow> real \<Rightarrow> real \<Rightarrow> real" where
  "max5 a b c d e = max a (max b (max c (max d e)))"

definition ErrorBox_extend :: "ErrorBox \<Rightarrow> Line \<Rightarrow> PVector \<Rightarrow> ErrorBox" where
  "ErrorBox_extend box line p =
    (let l = map_line line p;
         l00 = remapc line (eb_line box) (eb_s0 box) (eb_t0 box);
         l01 = remapc line (eb_line box) (eb_s0 box) (eb_t1 box);
         l10 = remapc line (eb_line box) (eb_s1 box) (eb_t0 box);
         l11 = remapc line (eb_line box) (eb_s1 box) (eb_t1 box)
     in \<lparr>eb_line = line,
         eb_s0 = min5 (lv_s l) (lv_s l00) (lv_s l01) (lv_s l10) (lv_s l11),
         eb_s1 = max5 (lv_s l) (lv_s l00) (lv_s l01) (lv_s l10) (lv_s l11),
         eb_t0 = min5 (lv_t l) (lv_t l00) (lv_t l01) (lv_t l10) (lv_t l11),
         eb_t1 = max5 (lv_t l) (lv_t l00) (lv_t l01) (lv_t l10) (lv_t l11)\<rparr>)"

definition ErrorBox_error :: "ErrorBox \<Rightarrow> real" where
  "ErrorBox_error box =
    (let t0 = eb_t0 box; t1 = eb_t1 box; line = eb_line box
     in max (t0 * t0) (t1 * t1) * (la line * la line + lb line * lb line))"

definition getCartesianCorners :: "ErrorBox \<Rightarrow> PVector list" where
  "getCartesianCorners box =
    (let line = eb_line box
     in [unmapc line (eb_s0 box) (eb_t0 box), unmapc line (eb_s0 box) (eb_t1 box),
         unmapc line (eb_s1 box) (eb_t1 box), unmapc line (eb_s1 box) (eb_t0 box)])"

section \<open>path\_simplifier.ts: the simplifier\<close>

record PointTag =
  tag_dist :: int
  tag_next :: int
  tag_cut :: bool

datatype Event = Accept | Cut | Threshold | Pioneer_weak | Pioneer_strong

text \<open>
  A \<open>PathSimplifier\<close> holds a reference to its \<open>Path\<close> and owns its \<open>LineFitter\<close>; the
  record carries the points of that path and the fitter's state along with the simplifier's
  own fields.
\<close>

record PathSimplifier =
  path :: "PVector list"
  pathLength :: nat
  fitter :: LineFitter
  tags :: "PointTag list"
  thresholdSq :: real
  trace :: "Event list"

definition isPioneer :: "Line \<Rightarrow> SimplePathHullNode list \<Rightarrow> nat \<Rightarrow> bool option" where
  "isPioneer line ns k = do {
     n \<leftarrow> get_node ns k;
     if \<not> node_isValid n then Some False
     else do {
       pn \<leftarrow> get_node ns (node_prev n);
       nn \<leftarrow> get_node ns (node_next n);
       let t = tangent line;
           dp = dot t (span_vec (node_pos n) (node_pos pn));
           dn = dot t (span_vec (node_pos n) (node_pos nn))
       in Some (dp * dn \<ge> 0)
     }
   }"

text \<open>The local variables of \<open>onAddPoint\<close> that its \<open>for\<close> loop reads and writes.\<close>

record scan_state =
  sc_tags :: "PointTag list"
  sc_errorBox :: ErrorBox
  sc_hull :: SimplePathHull
  sc_next :: int
  sc_dist :: int
  sc_trace :: "Event list"

datatype loop_exit = Break scan_state | Continue scan_state

text \<open>
  One iteration of the loop for the candidate \<open>i\<close>: \<open>Break\<close> is the source's \<open>break\<close>,
  \<open>Continue\<close> is falling through to \<open>--i\<close> (its \<open>continue\<close> included).
\<close>

definition scan_body ::
  "PVector list \<Rightarrow> LineFitter \<Rightarrow> real \<Rightarrow> nat \<Rightarrow> PVector \<Rightarrow> nat option \<Rightarrow> nat
    \<Rightarrow> scan_state \<Rightarrow> loop_exit option" where
  "scan_body pth ftr thrSq j pj nj i st = do {
     pi \<leftarrow> nth_opt pth (int i);
     ti \<leftarrow> nth_opt (sc_tags st) (int i);
     crossing \<leftarrow>
       (if tag_cut ti then Some True
        else if int i < int j - 2 then do {
          pi1 \<leftarrow> nth_opt pth (int i + 1);
          pj1 \<leftarrow> nth_opt pth (int j - 1);
          Some (intersect pi pi1 pj1 pj)
        }
        else Some False);
     if crossing then
       Some (Break (st\<lparr>sc_tags := (sc_tags st)[i := ti\<lparr>tag_cut := True\<rparr>],
                        sc_trace := sc_trace st @ [Cut]\<rparr>))
     else do {
       line \<leftarrow> fitLine ftr (int i) (int j);
       let box = ErrorBox_extend (sc_errorBox st) line pi in
       if ErrorBox_error box > thrSq then
         Some (Break (st\<lparr>sc_errorBox := box, sc_trace := sc_trace st @ [Threshold]\<rparr>))
       else do {
         (ni, h) \<leftarrow> offer (sc_hull st) pi;
         pioneer_i \<leftarrow> (case ni of None \<Rightarrow> Some False
                        | Some k \<Rightarrow> isPioneer line (hull_nodes h) k);
         if \<not> pioneer_i then
           Some (Continue (st\<lparr>sc_errorBox := box, sc_hull := h,
                               sc_trace := sc_trace st @ [Pioneer_weak]\<rparr>))
         else do {
           n \<leftarrow> nj;
           pioneer_j \<leftarrow> isPioneer line (hull_nodes h) n;
           if \<not> pioneer_j then
             Some (Break (st\<lparr>sc_errorBox := box, sc_hull := h,
                              sc_trace := sc_trace st @ [Pioneer_strong]\<rparr>))
           else if tag_dist ti < sc_dist st then
             Some (Continue (st\<lparr>sc_errorBox := box, sc_hull := h,
                                 sc_next := int i, sc_dist := tag_dist ti,
                                 sc_trace := sc_trace st @ [Accept]\<rparr>))
           else
             Some (Continue (st\<lparr>sc_errorBox := box, sc_hull := h,
                                 sc_trace := sc_trace st @ [Accept]\<rparr>))
         }
       }
     }
   }"

text \<open>
  The loop \<open>for (let i = j - 1; i >= 0; --i)\<close>: the counter argument is \<open>i + 1\<close>, so the
  loop is entered with \<open>j\<close> and left at \<open>0\<close>.
\<close>

fun scan ::
  "PVector list \<Rightarrow> LineFitter \<Rightarrow> real \<Rightarrow> nat \<Rightarrow> PVector \<Rightarrow> nat option \<Rightarrow> nat
    \<Rightarrow> scan_state \<Rightarrow> scan_state option" where
  "scan pth ftr thrSq j pj nj 0 st = Some st"
| "scan pth ftr thrSq j pj nj (Suc i) st = do {
     r \<leftarrow> scan_body pth ftr thrSq j pj nj i st;
     case r of Break st' \<Rightarrow> Some st'
     | Continue st' \<Rightarrow> scan pth ftr thrSq j pj nj i st'
   }"

definition onAddPoint :: "PathSimplifier \<Rightarrow> PVector \<Rightarrow> PathSimplifier option" where
  "onAddPoint s p =
    (let j = pathLength s;
         s1 = s\<lparr>trace := [Accept], pathLength := j + 1\<rparr>
     in do {
       l \<leftarrow> fitLine (fitter s) (int j) (int j);
       let errorBox = ErrorBox_new l p;
       (nj, hl) \<leftarrow> offer SimplePathHull_new p;
       if j = 0 then
         Some (s1\<lparr>tags := tags s @ [\<lparr>tag_dist = 0, tag_next = - 1, tag_cut = False\<rparr>]\<rparr>)
       else do {
         tn \<leftarrow> nth_opt (tags s) (int j - 1);
         st \<leftarrow> scan (path s) (fitter s) (thresholdSq s) j p nj j
                 \<lparr>sc_tags = tags s, sc_errorBox = errorBox, sc_hull = hl,
                  sc_next = int j - 1, sc_dist = tag_dist tn, sc_trace = [Accept]\<rparr>;
         Some (s1\<lparr>tags := sc_tags st @
                      [\<lparr>tag_dist = sc_dist st + 1, tag_next = sc_next st, tag_cut = False\<rparr>],
                   trace := sc_trace st\<rparr>)
       }
     })"

definition onClear :: "PathSimplifier \<Rightarrow> PathSimplifier" where
  "onClear s = s\<lparr>pathLength := 0, tags := []\<rparr>"

text \<open>
  \<open>Path.addPoint\<close> pushes the point and then calls the listeners in the order of their
  registration: the fitter, registered inside the simplifier's constructor, runs first.
\<close>

definition Path_addPoint :: "PathSimplifier \<Rightarrow> PVector \<Rightarrow> PathSimplifier option" where
  "Path_addPoint s p = do {
     f \<leftarrow> LineFitter_onAddPoint (fitter s) p;
     onAddPoint (s\<lparr>path := path s @ [p], fitter := f\<rparr>) p
   }"

fun replay_fitter :: "LineFitter \<Rightarrow> PVector list \<Rightarrow> LineFitter option" where
  "replay_fitter f [] = Some f"
| "replay_fitter f (p # ps) = do { f' \<leftarrow> LineFitter_onAddPoint f p; replay_fitter f' ps }"

definition LineFitter_new :: "PVector list \<Rightarrow> LineFitter option" where
  "LineFitter_new pth = replay_fitter LineFitter_onClear pth"

fun replay :: "PathSimplifier \<Rightarrow> PVector list \<Rightarrow> PathSimplifier option" where
  "replay s [] = Some s"
| "replay s (p # ps) = do { s' \<leftarrow> onAddPoint s p; replay s' ps }"

definition PathSimplifier_new :: "PVector list \<Rightarrow> real \<Rightarrow> PathSimplifier option" where
  "PathSimplifier_new pth threshold = do {
     f \<leftarrow> LineFitter_new pth;
     replay (onClear \<lparr>path = pth, pathLength = 0, fitter = f, tags = [],
                      thresholdSq = threshold * threshold, trace = []\<rparr>) pth
   }"

text \<open>The points appended one at a time to a path that a simplifier is attached to.\<close>

fun addPoints :: "PathSimplifier \<Rightarrow> PVector list \<Rightarrow> PathSimplifier option" where
  "addPoints s [] = Some s"
| "addPoints s (p # ps) = do { s' \<leftarrow> Path_addPoint s p; addPoints s' ps }"

definition appended :: "real \<Rightarrow> PVector list \<Rightarrow> PathSimplifier option" where
  "appended threshold ps = do { s \<leftarrow> PathSimplifier_new [] threshold; addPoints s ps }"

subsection \<open>Reading the simplified path\<close>

partial_function (option) walk_route ::
  "PathSimplifier \<Rightarrow> int \<Rightarrow> Line \<Rightarrow> PVector list \<Rightarrow> (Line \<times> PVector list) option" where
  "walk_route s i line result =
    (if i \<noteq> 0 then do {
       tj \<leftarrow> nth_opt (tags s) i;
       pj \<leftarrow> nth_opt (path s) i;
       line' \<leftarrow> fitLine (fitter s) (tag_next tj) i;
       walk_route s (tag_next tj) line'
         (result @
           [case intersection line' line of
              None \<Rightarrow> pj
            | Some p \<Rightarrow> if distSq p pj > 4 * thresholdSq s then pj else p])
     } else Some (line, result))"

declare walk_route.simps [code]

definition getSimplified :: "PathSimplifier \<Rightarrow> PVector list option" where
  "getSimplified s =
    (if pathLength s \<le> 1 then Some (path s)
     else do {
       tj \<leftarrow> nth_opt (tags s) (int (pathLength s) - 1);
       line \<leftarrow> fitLine (fitter s) (tag_next tj) (int (pathLength s) - 1);
       pj \<leftarrow> nth_opt (path s) (int (pathLength s) - 1);
       (line', result) \<leftarrow> walk_route s (tag_next tj) line [project pj line];
       p0 \<leftarrow> nth_opt (path s) 0;
       Some (result @ [project p0 line'])
     })"

section \<open>Invariants of the program state\<close>

text \<open>
  The predicates below are what the proofs carry along the executions of the program: the
  shape of the fitter's prefix sums, the ring structure of the hull's links, and the shape of
  the tag table.
\<close>

definition fitter_of :: "LineFitter \<Rightarrow> PVector list \<Rightarrow> bool" where
  "fitter_of f ps \<longleftrightarrow>
     lf_pathLength f = length ps \<and>
     length (sumsX f) = length ps + 1 \<and> length (sumsY f) = length ps + 1 \<and>
     length (sumsXX f) = length ps + 1 \<and> length (sumsYY f) = length ps + 1 \<and>
     length (sumsXY f) = length ps + 1 \<and>
     (\<forall>i < length ps.
        sumsX f ! Suc i = sumsX f ! i + px (ps ! i) \<and>
        sumsY f ! Suc i = sumsY f ! i + py (ps ! i) \<and>
        sumsXX f ! Suc i = sumsXX f ! i + px (ps ! i) * px (ps ! i) \<and>
        sumsYY f ! Suc i = sumsYY f ! i + py (ps ! i) * py (ps ! i) \<and>
        sumsXY f ! Suc i = sumsXY f ! i + px (ps ! i) * py (ps ! i))"

definition closed_nodes :: "SimplePathHullNode list \<Rightarrow> bool" where
  "closed_nodes ns \<longleftrightarrow>
     (\<forall>k < length ns. node_prev (ns ! k) < length ns \<and> node_next (ns ! k) < length ns)"

definition chain :: "SimplePathHullNode list \<Rightarrow> nat list \<Rightarrow> bool" where
  "chain ns t \<longleftrightarrow>
     t \<noteq> [] \<and> distinct t \<and> (\<forall>j < length t. t ! j < length ns) \<and>
     (\<forall>j. Suc j < length t \<longrightarrow>
        node_next (ns ! (t ! j)) = t ! Suc j \<and> node_prev (ns ! (t ! Suc j)) = t ! j)"

definition ring :: "SimplePathHullNode list \<Rightarrow> nat list \<Rightarrow> bool" where
  "ring ns r \<longleftrightarrow>
     chain ns r \<and> node_next (ns ! last r) = hd r \<and> node_prev (ns ! hd r) = last r"

definition hull_ok :: "SimplePathHull \<Rightarrow> bool" where
  "hull_ok h \<longleftrightarrow>
     closed_nodes (hull_nodes h) \<and>
     (case hull_first h of
        None \<Rightarrow> hull_size h = 0
      | Some f \<Rightarrow> \<exists>r. ring (hull_nodes h) r \<and> hd r = f \<and> hull_size h = int (length r))"

definition same_links :: "SimplePathHullNode list \<Rightarrow> SimplePathHullNode list \<Rightarrow> bool" where
  "same_links ns ns' \<longleftrightarrow>
     length ns' = length ns \<and>
     (\<forall>k < length ns. node_prev (ns' ! k) = node_prev (ns ! k) \<and>
                       node_next (ns' ! k) = node_next (ns ! k))"

definition offer_post :: "SimplePathHull \<Rightarrow> nat option \<Rightarrow> SimplePathHull \<Rightarrow> bool" where
  "offer_post h res h' \<longleftrightarrow>
     hull_ok h' \<and> length (hull_nodes h) \<le> length (hull_nodes h') \<and>
     (case res of None \<Rightarrow> True | Some k \<Rightarrow> k < length (hull_nodes h'))"

definition exit_state :: "loop_exit \<Rightarrow> scan_state" where
  "exit_state r = (case r of Break st \<Rightarrow> st | Continue st \<Rightarrow> st)"

definition is_break :: "loop_exit \<Rightarrow> bool" where
  "is_break r = (case r of Break st \<Rightarrow> True | Continue st \<Rightarrow> False)"

definition tags_le :: "PointTag list \<Rightarrow> PointTag list \<Rightarrow> bool" where
  "tags_le ts ts' \<longleftrightarrow>
     length ts' = length ts \<and>
     (\<forall>k < length ts. tag_dist (ts' ! k) = tag_dist (ts ! k) \<and>
                       tag_next (ts' ! k) = tag_next (ts ! k) \<and>
                       (tag_cut (ts ! k) \<longrightarrow> tag_cut (ts' ! k)))"

definition scan_post :: "nat \<Rightarrow> nat \<Rightarrow> scan_state \<Rightarrow> scan_state \<Rightarrow> bool" where
  "scan_post j n st st' \<longleftrightarrow>
     tags_le (sc_tags st) (sc_tags st') \<and>
     ((sc_next st' = sc_next st \<and> sc_dist st' = sc_dist st) \<or>
      (0 \<le> sc_next st' \<and> sc_next st' < int n \<and>
       sc_dist st' = tag_dist (sc_tags st ! nat (sc_next st')) \<and>
       (\<forall>i < n. tag_cut (sc_tags st ! i) \<longrightarrow> int i < sc_next st'))) \<and>
     (\<forall>k < length (sc_tags st). tag_cut (sc_tags st' ! k) \<longrightarrow>
        tag_cut (sc_tags st ! k) \<or> (k + 2 < j \<and> k < n)) \<and>
     length (sc_trace st') \<le> length (sc_trace st) + n \<and>
     (\<forall>i < n. tag_cut (sc_tags st ! i) \<longrightarrow>
        length (sc_trace st') \<le> length (sc_trace st) + (n - i) \<and>
        (length (sc_trace st') = length (sc_trace st) + (n - i) \<longrightarrow> last (sc_trace st') = Cut))"

definition sums_cover :: "LineFitter \<Rightarrow> nat \<Rightarrow> bool" where
  "sums_cover f n \<longleftrightarrow>
     n < length (sumsX f) \<and> n < length (sumsY f) \<and> n < length (sumsXX f) \<and>
     n < length (sumsYY f) \<and> n < length (sumsXY f)"

definition tags_ok :: "PointTag list \<Rightarrow> bool" where
  "tags_ok ts \<longleftrightarrow>
     (\<forall>j < length ts.
        (j = 0 \<longrightarrow> tag_next (ts ! j) = - 1 \<and> tag_dist (ts ! j) = 0) \<and>
        (0 < j \<longrightarrow> 0 \<le> tag_next (ts ! j) \<and> tag_next (ts ! j) < int j \<and>
                   tag_dist (ts ! j) = tag_dist (ts ! nat (tag_next (ts ! j))) + 1) \<and>
        (tag_cut (ts ! j) \<longrightarrow> j + 3 < length ts))"

definition ready :: "PathSimplifier \<Rightarrow> bool" where
  "ready s \<longleftrightarrow>
     length (tags s) = pathLength s \<and> pathLength s < length (path s) \<and>
     sums_cover (fitter s) (length (path s)) \<and> tags_ok (tags s)"

definition grows :: "PathSimplifier \<Rightarrow> PathSimplifier \<Rightarrow> bool" where
  "grows s s' \<longleftrightarrow>
     length (tags s') = Suc (length (tags s)) \<and>
     tags_le (tags s) (butlast (tags s')) \<and>
     (\<forall>i < length (tags s). tag_cut (tags s ! i) \<longrightarrow>
        int i < tag_next (last (tags s')) \<and>
        length (trace s') \<le> Suc (length (tags s) - i) \<and>
        (length (trace s') = Suc (length (tags s) - i) \<longrightarrow> last (trace s') = Cut))"

definition attached :: "PathSimplifier \<Rightarrow> bool" where
  "attached s \<longleftrightarrow>
     pathLength s = length (path s) \<and> length (tags s) = length (path s) \<and>
     fitter_of (fitter s) (path s) \<and> tags_ok (tags s)"

definition route_pred :: "PathSimplifier \<Rightarrow> nat \<Rightarrow> nat" where
  "route_pred s j = nat (tag_next (tags s ! j))"


section \<open>The line fitter and the error box in binary64\<close>

text \<open>
  A JavaScript \<open>number\<close> is an IEEE 754 binary64 value, and every arithmetic operation
  returns the real result rounded to the nearest such value, ties to the even significand.
  What \<open>LineFitter\<close> and \<open>ErrorBox\<close> return depends on that rounding, so this section
  repeats their arithmetic with it.  A finite \<open>number\<close> is the real it denotes (the two
  zeros are one value: no operation below tells them apart other than by an infinite
  quotient).  An operation whose result is not finite, an overflow, a division by zero or
  \<open>0 / 0\<close>, returns \<open>None\<close>, and so does every function that performs one: the values
  \<open>Infinity\<close> and NaN are not modelled, and the statements of this section are about the
  runs in which they do not occur.
\<close>

definition expo :: "real \<Rightarrow> int" where
  \<comment> \<open>the binary exponent of a nonzero real: \<open>2 powi e \<le> \<bar>x\<bar> < 2 powi (e + 1)\<close>\<close>
  "expo x = (if 1 \<le> \<bar>x\<bar> then bitlen \<lfloor>\<bar>x\<bar>\<rfloor> - 1 else - bitlen (\<lceil>1 / \<bar>x\<bar>\<rceil> - 1))"

definition ulp_exp :: "real \<Rightarrow> int" where
  \<comment> \<open>53 significant bits; below \<open>2 powi (- 1022)\<close> the subnormal spacing\<close>
  "ulp_exp x = max (expo x - 52) (- 1074)"

definition ulp :: "real \<Rightarrow> real" where
  "ulp x = 2 powi ulp_exp x"

definition round_even :: "real \<Rightarrow> int" where
  "round_even r =
    (let f = \<lfloor>r\<rfloor>; d = r - of_int f
     in if d < 1 / 2 then f else if 1 / 2 < d then f + 1 else if even f then f else f + 1)"

definition fl :: "real \<Rightarrow> real" where
  \<comment> \<open>round to nearest, ties to even, with no bound on the exponent\<close>
  "fl x = (if x = 0 then 0 else of_int (round_even (x / ulp x)) * ulp x)"

definition MAX_VALUE :: real where
  \<comment> \<open>\<open>Number.MAX_VALUE\<close>\<close>
  "MAX_VALUE = (2 ^ 53 - 1) * 2 ^ 971"

definition num :: "real \<Rightarrow> real option" where
  \<comment> \<open>the \<open>number\<close> an exact result becomes, if that is finite\<close>
  "num r = (let v = fl r in if \<bar>v\<bar> \<le> MAX_VALUE then Some v else None)"

definition fadd :: "real \<Rightarrow> real \<Rightarrow> real option" where
  "fadd x y = num (x + y)"

definition fsub :: "real \<Rightarrow> real \<Rightarrow> real option" where
  "fsub x y = num (x - y)"

definition fmul :: "real \<Rightarrow> real \<Rightarrow> real option" where
  "fmul x y = num (x * y)"

definition fdiv :: "real \<Rightarrow> real \<Rightarrow> real option" where
  "fdiv x y = (if y = 0 then None else num (x / y))"

subsection \<open>line\_fitter.ts\<close>

definition LineFitter_onAddPoint64 :: "LineFitter \<Rightarrow> PVector \<Rightarrow> LineFitter option" where
  "LineFitter_onAddPoint64 f p =
    (let x = px p; y = py p; i = int (lf_pathLength f) in
     do {
       sx \<leftarrow> nth_opt (sumsX f) i;
       nx \<leftarrow> fadd sx x;
       sy \<leftarrow> nth_opt (sumsY f) i;
       ny \<leftarrow> fadd sy y;
       sxx \<leftarrow> nth_opt (sumsXX f) i;
       xx \<leftarrow> fmul x x;
       nxx \<leftarrow> fadd sxx xx;
       syy \<leftarrow> nth_opt (sumsYY f) i;
       yy \<leftarrow> fmul y y;
       nyy \<leftarrow> fadd syy yy;
       sxy \<leftarrow> nth_opt (sumsXY f) i;
       xy \<leftarrow> fmul x y;
       nxy \<leftarrow> fadd sxy xy;
       Some \<lparr>lf_pathLength = lf_pathLength f + 1,
             sumsX = sumsX f @ [nx],
             sumsY = sumsY f @ [ny],
             sumsXX = sumsXX f @ [nxx],
             sumsYY = sumsYY f @ [nyy],
             sumsXY = sumsXY f @ [nxy]\<rparr>
     })"

fun LineFitter_addPoints64 :: "LineFitter \<Rightarrow> PVector list \<Rightarrow> LineFitter option" where
  \<comment> \<open>the fitter is a listener of the path: one \<open>onAddPoint\<close> for each appended point\<close>
  "LineFitter_addPoints64 f [] = Some f"
| "LineFitter_addPoints64 f (p # ps) = do {
     g \<leftarrow> LineFitter_onAddPoint64 f p;
     LineFitter_addPoints64 g ps
   }"

definition LineFitter_appended64 :: "PVector list \<Rightarrow> LineFitter option" where
  \<comment> \<open>a fitter created on an empty path, after the points have been appended to the path\<close>
  "LineFitter_appended64 ps = LineFitter_addPoints64 LineFitter_onClear ps"

definition rangeSum64 :: "real list \<Rightarrow> int \<Rightarrow> int \<Rightarrow> real option" where
  "rangeSum64 ss i j = do {
     hi \<leftarrow> nth_opt ss (j + 1);
     lo \<leftarrow> nth_opt ss i;
     fsub hi lo
   }"

definition fitLine_static64 ::
  "real \<Rightarrow> real \<Rightarrow> real \<Rightarrow> real \<Rightarrow> real \<Rightarrow> int \<Rightarrow> Line option" where
  "fitLine_static64 sumX sumY sumXX sumYY sumXY n =
    (if n \<le> 0 then Some \<lparr>la = 1, lb = - 1, lc = 0\<rparr>
     else do {
       nxx \<leftarrow> fmul (of_int n) sumXX;
       xx \<leftarrow> fmul sumX sumX;
       da \<leftarrow> fsub nxx xx;
       nyy \<leftarrow> fmul (of_int n) sumYY;
       yy \<leftarrow> fmul sumY sumY;
       db \<leftarrow> fsub nyy yy;
       let fa = max da 0; fb = max db 0 in
       if fa \<le> EPSILON \<and> fb \<le> EPSILON then do {
         s \<leftarrow> fadd sumX sumY;
         c \<leftarrow> fdiv s (of_int n);
         Some \<lparr>la = - 1, lb = - 1, lc = c\<rparr>
       }
       else if fa < fb then do {
         xy \<leftarrow> fmul sumX sumY;
         nxy \<leftarrow> fmul (of_int n) sumXY;
         d \<leftarrow> fsub xy nxy;
         b \<leftarrow> fdiv d fb;
         yb \<leftarrow> fmul sumY b;
         s \<leftarrow> fadd yb sumX;
         c \<leftarrow> fdiv (- s) (of_int n);
         Some \<lparr>la = 1, lb = b, lc = c\<rparr>
       }
       else do {
         xy \<leftarrow> fmul sumX sumY;
         nxy \<leftarrow> fmul (of_int n) sumXY;
         d \<leftarrow> fsub xy nxy;
         a \<leftarrow> fdiv d fa;
         xa \<leftarrow> fmul sumX a;
         s \<leftarrow> fadd xa sumY;
         c \<leftarrow> fdiv (- s) (of_int n);
         Some \<lparr>la = a, lb = 1, lc = c\<rparr>
       }
     })"

text \<open>
  As in the exact model, the instance method reads the five range sums first, and the
  static function ignores them on its \<open>n \<le> 0\<close> branch, whatever they are.
\<close>

definition fitLine64 :: "LineFitter \<Rightarrow> int \<Rightarrow> int \<Rightarrow> Line option" where
  "fitLine64 f i j =
    (case (rangeSum64 (sumsX f) i j, rangeSum64 (sumsY f) i j, rangeSum64 (sumsXX f) i j,
           rangeSum64 (sumsYY f) i j, rangeSum64 (sumsXY f) i j) of
       (Some sx, Some sy, Some sxx, Some syy, Some sxy) \<Rightarrow>
          fitLine_static64 sx sy sxx syy sxy (j - i + 1)
     | _ \<Rightarrow> if j - i + 1 \<le> 0 then Some \<lparr>la = 1, lb = - 1, lc = 0\<rparr> else None)"

subsection \<open>line.ts\<close>

definition map_line64 :: "Line \<Rightarrow> PVector \<Rightarrow> LVector option" where
  "map_line64 l p =
    (let a = la l; b = lb l; c = lc l in
     do {
       aa \<leftarrow> fmul a a;
       bb \<leftarrow> fmul b b;
       c1 \<leftarrow> fadd aa bb;
       ax \<leftarrow> fmul a (px p);
       by \<leftarrow> fmul b (py p);
       axby \<leftarrow> fadd ax by;
       n \<leftarrow> fadd axby c;
       t \<leftarrow> fdiv n c1;
       q \<leftarrow> fdiv c c1;
       c2 \<leftarrow> fsub q t;
       s \<leftarrow> (if \<bar>a\<bar> > \<bar>b\<bar>
            then do { bc \<leftarrow> fmul b c2; m \<leftarrow> fadd (py p) bc; fdiv m a }
            else do { ac \<leftarrow> fmul a c2; m \<leftarrow> fadd (px p) ac; fdiv (- m) b });
       Some \<lparr>lv_s = s, lv_t = t\<rparr>
     })"

definition unmapc64 :: "Line \<Rightarrow> real \<Rightarrow> real \<Rightarrow> PVector option" where
  "unmapc64 l s t =
    (let a = la l; b = lb l; c = lc l in
     do {
       aa \<leftarrow> fmul a a;
       bb \<leftarrow> fmul b b;
       d \<leftarrow> fadd aa bb;
       q \<leftarrow> fdiv c d;
       c1 \<leftarrow> fsub t q;
       c1a \<leftarrow> fmul c1 a;
       sb \<leftarrow> fmul s b;
       x \<leftarrow> fsub c1a sb;
       c1b \<leftarrow> fmul c1 b;
       sa \<leftarrow> fmul s a;
       y \<leftarrow> fadd c1b sa;
       Some \<lparr>px = x, py = y\<rparr>
     })"

definition remapc64 :: "Line \<Rightarrow> Line \<Rightarrow> real \<Rightarrow> real \<Rightarrow> LVector option" where
  \<comment> \<open>\<open>this.remapc(other, s, t)\<close>: the receiver is the first argument\<close>
  "remapc64 this other s t = do { p \<leftarrow> unmapc64 other s t; map_line64 this p }"

subsection \<open>ErrorBox (path\_simplifier.ts)\<close>

definition ErrorBox_at :: "Line \<Rightarrow> LVector \<Rightarrow> ErrorBox" where
  \<comment> \<open>the fields the constructor sets for a point with line coordinates \<open>l\<close>\<close>
  "ErrorBox_at line l =
     \<lparr>eb_line = line, eb_s0 = lv_s l, eb_s1 = lv_s l, eb_t0 = lv_t l, eb_t1 = lv_t l\<rparr>"

definition ErrorBox_new64 :: "Line \<Rightarrow> PVector \<Rightarrow> ErrorBox option" where
  "ErrorBox_new64 line p = do {
     l \<leftarrow> map_line64 line p;
     Some (ErrorBox_at line l)
   }"

definition ErrorBox_extend64 :: "ErrorBox \<Rightarrow> Line \<Rightarrow> PVector \<Rightarrow> ErrorBox option" where
  "ErrorBox_extend64 box line p = do {
     l \<leftarrow> map_line64 line p;
     l00 \<leftarrow> remapc64 line (eb_line box) (eb_s0 box) (eb_t0 box);
     l01 \<leftarrow> remapc64 line (eb_line box) (eb_s0 box) (eb_t1 box);
     l10 \<leftarrow> remapc64 line (eb_line box) (eb_s1 box) (eb_t0 box);
     l11 \<leftarrow> remapc64 line (eb_line box) (eb_s1 box) (eb_t1 box);
     Some \<lparr>eb_line = line,
           eb_s0 = min5 (lv_s l) (lv_s l00) (lv_s l01) (lv_s l10) (lv_s l11),
           eb_s1 = max5 (lv_s l) (lv_s l00) (lv_s l01) (lv_s l10) (lv_s l11),
           eb_t0 = min5 (lv_t l) (lv_t l00) (lv_t l01) (lv_t l10) (lv_t l11),
           eb_t1 = max5 (lv_t l) (lv_t l00) (lv_t l01) (lv_t l10) (lv_t l11)\<rparr>
   }"

definition ErrorBox_error64 :: "ErrorBox \<Rightarrow> real option" where
  "ErrorBox_error64 box =
    (let t0 = eb_t0 box; t1 = eb_t1 box; line = eb_line box in
     do {
       t00 \<leftarrow> fmul t0 t0;
       t11 \<leftarrow> fmul t1 t1;
       aa \<leftarrow> fmul (la line) (la line);
       bb \<leftarrow> fmul (lb line) (lb line);
       n \<leftarrow> fadd aa bb;
       fmul (max t00 t11) n
     })"

subsection \<open>Notions for the statements\<close>

definition is_number :: "real \<Rightarrow> bool" where
  \<comment> \<open>the reals that are finite binary64 values\<close>
  "is_number x \<longleftrightarrow> num x = Some x"

definition in_box :: "ErrorBox \<Rightarrow> LVector \<Rightarrow> bool" where
  "in_box box q \<longleftrightarrow>
     eb_s0 box \<le> lv_s q \<and> lv_s q \<le> eb_s1 box \<and> eb_t0 box \<le> lv_t q \<and> lv_t q \<le> eb_t1 box"

definition contributions_recovered :: "LineFitter \<Rightarrow> PVector \<Rightarrow> int \<Rightarrow> bool" where
  \<comment> \<open>the differences of the prefix sums at \<open>i\<close> are what \<open>onAddPoint\<close> added for the point\<close>
  "contributions_recovered f p i \<longleftrightarrow>
     rangeSum64 (sumsX f) i i = Some (px p) \<and>
     rangeSum64 (sumsY f) i i = Some (py p) \<and>
     rangeSum64 (sumsXX f) i i = Some (fl (px p * px p)) \<and>
     rangeSum64 (sumsYY f) i i = Some (fl (py p * py p)) \<and>
     rangeSum64 (sumsXY f) i i = Some (fl (px p * py p))"

definition line_value64 :: "Line \<Rightarrow> PVector \<Rightarrow> real option" where
  \<comment> \<open>\<open>a * p.x + b * p.y + c\<close>, as \<open>Line.map\<close> and \<open>Geometry.project\<close> evaluate it\<close>
  "line_value64 l p = do {
     ax \<leftarrow> fmul (la l) (px p);
     by \<leftarrow> fmul (lb l) (py p);
     axby \<leftarrow> fadd ax by;
     fadd axby (lc l)
   }"


section \<open>Example runs\<close>

text \<open>
  Concrete inputs and the states they lead to, used to instantiate the theorems below.
  First three runs of the simplifier: the three collinear points of the spec's scenario
  (threshold 1), a path of four points on which the error bound of the box shrinks
  (threshold 10), and a path whose fourth segment crosses its first (threshold 100).
\<close>

definition pt :: "real \<Rightarrow> real \<Rightarrow> PVector" where
  "pt x y = \<lparr>px = x, py = y\<rparr>"

definition tag :: "int \<Rightarrow> int \<Rightarrow> bool \<Rightarrow> PointTag" where
  "tag d n c = \<lparr>tag_dist = d, tag_next = n, tag_cut = c\<rparr>"

definition hnode :: "PVector \<Rightarrow> nat \<Rightarrow> nat \<Rightarrow> bool \<Rightarrow> SimplePathHullNode" where
  "hnode p a b v = \<lparr>node_pos = p, node_prev = a, node_next = b, node_isValid = v\<rparr>"

definition sums_of :: "PVector list \<Rightarrow> LineFitter" where
  \<comment> \<open>the fitter after the points \<open>ps\<close>, written out as running totals\<close>
  "sums_of ps =
     \<lparr>lf_pathLength = length ps,
      sumsX = map (\<lambda>k. sum_list (map px (take k ps))) [0 ..< Suc (length ps)],
      sumsY = map (\<lambda>k. sum_list (map py (take k ps))) [0 ..< Suc (length ps)],
      sumsXX = map (\<lambda>k. sum_list (map (\<lambda>p. px p * px p) (take k ps))) [0 ..< Suc (length ps)],
      sumsYY = map (\<lambda>k. sum_list (map (\<lambda>p. py p * py p) (take k ps))) [0 ..< Suc (length ps)],
      sumsXY = map (\<lambda>k. sum_list (map (\<lambda>p. px p * py p) (take k ps))) [0 ..< Suc (length ps)]\<rparr>"

definition run_state ::
  "PVector list \<Rightarrow> real \<Rightarrow> PointTag list \<Rightarrow> Event list \<Rightarrow> PathSimplifier" where
  "run_state ps thrSq ts tr =
     \<lparr>path = ps, pathLength = length ps, fitter = sums_of ps, tags = ts,
      thresholdSq = thrSq, trace = tr\<rparr>"

definition collinear3 :: "PVector list" where
  "collinear3 = [pt 0 0, pt 5 0, pt 10 0]"

definition collinear3_final :: PathSimplifier where
  "collinear3_final =
     run_state collinear3 1 [tag 0 (- 1) False, tag 1 0 False, tag 1 0 False]
       [Accept, Accept, Accept]"

definition crossing4 :: "PVector list" where
  "crossing4 = [pt 0 0, pt 2 0, pt 1 1, pt 1 (- 1)]"

definition crossing4_final :: PathSimplifier where
  "crossing4_final =
     run_state crossing4 10000
       [tag 0 (- 1) True, tag 1 0 False, tag 2 1 False, tag 3 2 False]
       [Accept, Accept, Pioneer_weak, Cut]"

definition crossing5_final :: PathSimplifier where
  "crossing5_final =
     run_state (crossing4 @ [pt 1 (- 2)]) 10000
       [tag 0 (- 1) True, tag 1 0 False, tag 2 1 False, tag 3 2 False, tag 3 2 False]
       [Accept, Accept, Accept, Pioneer_weak, Cut]"

definition shrink_path :: "PVector list" where
  "shrink_path = [pt 5 (9 / 10), pt 5 1, pt 10 0, pt 0 0]"

definition shrink_tags :: "PointTag list" where
  "shrink_tags = [tag 0 (- 1) False, tag 1 0 False, tag 2 1 False]"

definition shrink_before :: PathSimplifier where
  \<comment> \<open>the simplifier when the fourth point reaches \<open>onAddPoint\<close>: the path and the fitter
      already hold it\<close>
  "shrink_before =
     \<lparr>path = shrink_path, pathLength = 3, fitter = sums_of shrink_path, tags = shrink_tags,
      thresholdSq = 100, trace = [Accept, Accept, Pioneer_weak]\<rparr>"

definition shrink_st0 :: scan_state where
  "shrink_st0 =
     \<lparr>sc_tags = shrink_tags,
      sc_errorBox = \<lparr>eb_line = \<lparr>la = - 1, lb = - 1, lc = 0\<rparr>,
                       eb_s0 = 0, eb_s1 = 0, eb_t0 = 0, eb_t1 = 0\<rparr>,
      sc_hull = \<lparr>hull_nodes = [hnode (pt 0 0) 0 0 True], hull_first = Some 0, hull_size = 1\<rparr>,
      sc_next = 2, sc_dist = 2, sc_trace = [Accept]\<rparr>"

definition shrink_st1 :: scan_state where
  "shrink_st1 =
     \<lparr>sc_tags = shrink_tags,
      sc_errorBox = \<lparr>eb_line = \<lparr>la = 0, lb = 1, lc = 0\<rparr>,
                       eb_s0 = - 10, eb_s1 = 0, eb_t0 = 0, eb_t1 = 0\<rparr>,
      sc_hull = \<lparr>hull_nodes = [hnode (pt 0 0) 1 1 True, hnode (pt 10 0) 0 0 True],
                   hull_first = Some 1, hull_size = 2\<rparr>,
      sc_next = 2, sc_dist = 2, sc_trace = [Accept, Accept]\<rparr>"

definition shrink_hull3 :: SimplePathHull where
  "shrink_hull3 =
     \<lparr>hull_nodes = [hnode (pt 0 0) 2 1 True, hnode (pt 10 0) 0 2 True, hnode (pt 5 1) 1 0 True],
      hull_first = Some 2, hull_size = 3\<rparr>"

definition shrink_st2 :: scan_state where
  "shrink_st2 =
     \<lparr>sc_tags = shrink_tags,
      sc_errorBox = \<lparr>eb_line = \<lparr>la = 0, lb = 1, lc = - (1 / 3)\<rparr>,
                       eb_s0 = - 10, eb_s1 = 0, eb_t0 = - (1 / 3), eb_t1 = 2 / 3\<rparr>,
      sc_hull = shrink_hull3,
      sc_next = 2, sc_dist = 2, sc_trace = [Accept, Accept, Pioneer_weak]\<rparr>"

definition shrink_st3 :: scan_state where
  "shrink_st3 =
     \<lparr>sc_tags = shrink_tags,
      sc_errorBox = \<lparr>eb_line = \<lparr>la = 0, lb = 1, lc = - (19 / 40)\<rparr>,
                       eb_s0 = - 10, eb_s1 = 0, eb_t0 = - (19 / 40), eb_t1 = 21 / 40\<rparr>,
      sc_hull = shrink_hull3,
      sc_next = 2, sc_dist = 2, sc_trace = [Accept, Accept, Pioneer_weak, Pioneer_weak]\<rparr>"



text \<open>
  Fitters in binary64: a path whose first point has the abscissa \<open>2 ^ 53\<close>, next to which
  the abscissa 1 of the second point is lost in the prefix sums; a single point whose
  coordinates have no binary64 sum; and two points with small integer coordinates.
\<close>

definition big_first_path :: "PVector list" where
  "big_first_path = [pt (2 ^ 53) 0, pt 1 0]"

definition big_first_fitter :: LineFitter where
  "big_first_fitter =
     \<lparr>lf_pathLength = 2, sumsX = [0, 2 ^ 53, 2 ^ 53], sumsY = [0, 0, 0],
      sumsXX = [0, 2 ^ 106, 2 ^ 106], sumsYY = [0, 0, 0], sumsXY = [0, 0, 0]\<rparr>"

definition rounded_sum_path :: "PVector list" where
  "rounded_sum_path = [pt (2 ^ 53) 1]"

definition rounded_sum_fitter :: LineFitter where
  "rounded_sum_fitter =
     \<lparr>lf_pathLength = 1, sumsX = [0, 2 ^ 53], sumsY = [0, 1],
      sumsXX = [0, 2 ^ 106], sumsYY = [0, 1], sumsXY = [0, 2 ^ 53]\<rparr>"

definition small_path :: "PVector list" where
  "small_path = [pt 1 2, pt 3 4]"

definition small_fitter :: LineFitter where
  "small_fitter =
     \<lparr>lf_pathLength = 2, sumsX = [0, 1, 4], sumsY = [0, 2, 6],
      sumsXX = [0, 1, 10], sumsYY = [0, 4, 20], sumsXY = [0, 2, 14]\<rparr>"

text \<open>
  A box in the frame of the line \<open>y = 0\<close>, and the box that \<open>extend\<close> makes of it in the
  frame of the line \<open>x + y = 2\<close> with the point (3, 1).
\<close>

definition unit_box :: ErrorBox where
  "unit_box =
     \<lparr>eb_line = \<lparr>la = 0, lb = 1, lc = 0\<rparr>, eb_s0 = - 2, eb_s1 = 0, eb_t0 = 0, eb_t1 = 1\<rparr>"

definition diag_line :: Line where
  "diag_line = \<lparr>la = 1, lb = 1, lc = - 2\<rparr>"

definition diag_box :: ErrorBox where
  "diag_box = \<lparr>eb_line = diag_line, eb_s0 = - 1, eb_s1 = 1 / 2, eb_t0 = - 1, eb_t1 = 1\<rparr>"

section \<open>Facts about the program\<close>

subsection \<open>Array reads\<close>

text \<open>Reads at an index that is known to be in range.\<close>

lemma nth_opt_nat [simp]: "nth_opt xs (int k) = (if k < length xs then Some (xs ! k) else None)"
  by (simp add: nth_opt_def)

lemma nth_opt_pred:
  "0 < n \<Longrightarrow> n \<le> length xs \<Longrightarrow> nth_opt xs (int n - 1) = Some (xs ! (n - 1))"
  by (simp add: nth_opt_def nat_diff_distrib)

lemma get_node_Some [simp]: "k < length ns \<Longrightarrow> get_node ns k = Some (ns ! k)"
  by (simp add: get_node_def nth_opt_def)

subsection \<open>The line fitter\<close>

text \<open>
  The prefix sums stay one entry longer than the path, and consecutive entries differ by the
  point's contribution; \<open>fitLine\<close> then reads in range for every pair of indices of the
  path.
\<close>

lemma fitter_of_onClear: "fitter_of LineFitter_onClear []"
  by (simp add: fitter_of_def LineFitter_onClear_def)

lemma fitter_of_onAddPoint:
  assumes "fitter_of f ps"
  shows "\<exists>f'. LineFitter_onAddPoint f p = Some f' \<and> fitter_of f' (ps @ [p])"
proof -
  let ?n = "length ps"
  let ?f' = "\<lparr>lf_pathLength = ?n + 1,
             sumsX = sumsX f @ [sumsX f ! ?n + px p],
             sumsY = sumsY f @ [sumsY f ! ?n + py p],
             sumsXX = sumsXX f @ [sumsXX f ! ?n + px p * px p],
             sumsYY = sumsYY f @ [sumsYY f ! ?n + py p * py p],
             sumsXY = sumsXY f @ [sumsXY f ! ?n + px p * py p]\<rparr>"
  from assms have eq: "LineFitter_onAddPoint f p = Some ?f'"
    by (simp add: LineFitter_onAddPoint_def fitter_of_def Let_def)
  have "fitter_of ?f' (ps @ [p])"
    using assms unfolding fitter_of_def
    by (auto simp: nth_append less_Suc_eq)
  with eq show ?thesis by blast
qed

lemma replay_fitter_of:
  "fitter_of f ps \<Longrightarrow> \<exists>f'. replay_fitter f qs = Some f' \<and> fitter_of f' (ps @ qs)"
proof (induction qs arbitrary: f ps)
  case Nil
  then show ?case by simp
next
  case (Cons q qs)
  from fitter_of_onAddPoint[OF Cons.prems, of q] obtain f1 where
    f1: "LineFitter_onAddPoint f q = Some f1" "fitter_of f1 (ps @ [q])" by blast
  from Cons.IH[OF f1(2)] f1(1) show ?case by simp
qed

lemma LineFitter_new_of: "\<exists>f. LineFitter_new pth = Some f \<and> fitter_of f pth"
  using replay_fitter_of[OF fitter_of_onClear, of pth] by (simp add: LineFitter_new_def)

lemma rangeSum_nat:
  "Suc j < length ss \<Longrightarrow> i < length ss \<Longrightarrow> rangeSum ss (int i) (int j) = Some (ss ! Suc j - ss ! i)"
  by (simp add: rangeSum_def nth_opt_def nat_add_distrib)

lemma rangeSum_total:
  "Suc j < length ss \<Longrightarrow> i \<le> j \<Longrightarrow> \<exists>v. rangeSum ss (int i) (int j) = Some v"
  by (simp add: rangeSum_def nth_opt_def)

lemma sums_cover_mono: "sums_cover f n \<Longrightarrow> m \<le> n \<Longrightarrow> sums_cover f m"
  by (simp add: sums_cover_def)

lemma fitter_of_cover: "fitter_of f ps \<Longrightarrow> sums_cover f (length ps)"
  by (simp add: fitter_of_def sums_cover_def)

lemma fitLine_total:
  assumes "sums_cover f (Suc j)" and "i \<le> j"
  shows "\<exists>l. fitLine f (int i) (int j) = Some l"
proof -
  from assms obtain a b c d e where
    "rangeSum (sumsX f) (int i) (int j) = Some a" "rangeSum (sumsY f) (int i) (int j) = Some b"
    "rangeSum (sumsXX f) (int i) (int j) = Some c" "rangeSum (sumsYY f) (int i) (int j) = Some d"
    "rangeSum (sumsXY f) (int i) (int j) = Some e"
    unfolding sums_cover_def by (metis rangeSum_total)
  then show ?thesis by (simp add: fitLine_def)
qed

subsection \<open>The links of the hull\<close>

text \<open>
  Every \<open>offer\<close> returns: the two tangent searches and the eviction loop walk a ring of
  links and stop, and the new node is spliced into a ring again.  Only the links matter
  here, not the positions.
\<close>

lemma makeNode_links:
  assumes "pr < length ns" and "nx < length ns"
  shows "\<exists>ns'. makeNode ns p (Some pr) (Some nx) = Some (ns', length ns) \<and>
           length ns' = Suc (length ns) \<and>
           node_prev (ns' ! length ns) = pr \<and> node_next (ns' ! length ns) = nx \<and>
           (\<forall>q < length ns.
              node_next (ns' ! q) = (if q = pr then length ns else node_next (ns ! q)) \<and>
              node_prev (ns' ! q) = (if q = nx then length ns else node_prev (ns ! q)))"
  using assms
  by (auto simp: makeNode_def Let_def nth_list_update nth_append)

lemma makeNode_self:
  "\<exists>ns'. makeNode ns p None None = Some (ns', length ns) \<and>
           length ns' = Suc (length ns) \<and>
           node_prev (ns' ! length ns) = length ns \<and> node_next (ns' ! length ns) = length ns \<and>
           (\<forall>q < length ns.
              node_next (ns' ! q) = node_next (ns ! q) \<and> node_prev (ns' ! q) = node_prev (ns ! q))"
  by (auto simp: makeNode_def Let_def nth_list_update nth_append)

lemma same_links_refl: "same_links ns ns"
  by (simp add: same_links_def)

lemma same_links_trans: "same_links a b \<Longrightarrow> same_links b c \<Longrightarrow> same_links a c"
  by (simp add: same_links_def)

lemma same_links_invalidate:
  "same_links ns (ns[k := (ns ! k)\<lparr>node_isValid := False\<rparr>])"
  by (cases "k < length ns") (auto simp: same_links_def nth_list_update)

lemma chain_same_links: "same_links ns ns' \<Longrightarrow> chain ns t \<Longrightarrow> chain ns' t"
  unfolding chain_def same_links_def
  by (metis Suc_lessD)

lemma ring_same_links: "same_links ns ns' \<Longrightarrow> ring ns r \<Longrightarrow> ring ns' r"
proof -
  assume sl: "same_links ns ns'" and r: "ring ns r"
  then have c: "chain ns r" and ne: "r \<noteq> []" by (simp_all add: ring_def chain_def)
  from c ne have "hd r < length ns" "last r < length ns"
    by (simp_all add: chain_def hd_conv_nth last_conv_nth)
  with sl r chain_same_links[OF sl c] show ?thesis
    by (simp add: ring_def same_links_def)
qed

lemma closed_same_links: "same_links ns ns' \<Longrightarrow> closed_nodes ns \<Longrightarrow> closed_nodes ns'"
  by (simp add: closed_nodes_def same_links_def)

lemma ring_nth_lt: "ring ns r \<Longrightarrow> k < length r \<Longrightarrow> r ! k < length ns"
  by (simp add: ring_def chain_def)

lemma ring_next:
  "ring ns r \<Longrightarrow> k < length r \<Longrightarrow>
     node_next (ns ! (r ! k)) = (if Suc k < length r then r ! Suc k else hd r)"
  by (auto simp: ring_def chain_def last_conv_nth not_less less_Suc_eq_le dest: le_antisym)

lemma ring_prev:
  "ring ns r \<Longrightarrow> k < length r \<Longrightarrow>
     node_prev (ns ! (r ! k)) = (if k = 0 then last r else r ! (k - 1))"
  by (cases k) (auto simp: ring_def chain_def hd_conv_nth)

lemma ring_nth_eq_hd: "ring ns r \<Longrightarrow> k < length r \<Longrightarrow> r ! k = hd r \<longleftrightarrow> k = 0"
  by (auto simp: ring_def chain_def hd_conv_nth nth_eq_iff_index_eq)

lemma seek_n0_from:
  assumes r: "ring ns r"
  shows "k < length r \<Longrightarrow> 0 < k \<Longrightarrow> \<exists>n0 \<in> set r. seek_n0 ns (hd r) p (r ! k) = Some n0"
proof (induction k)
  case 0
  then show ?case by simp
next
  case (Suc k)
  have lt: "r ! Suc k < length ns" using r Suc.prems by (simp add: ring_nth_lt)
  have pv: "node_prev (ns ! (r ! Suc k)) = r ! k" using r Suc.prems by (simp add: ring_prev)
  have klt: "r ! k < length ns" using r Suc.prems by (simp add: ring_nth_lt)
  show ?case
  proof (cases "k = 0")
    case True
    with r Suc.prems have "r ! k = hd r" by (cases r) simp_all
    then have "seek_n0 ns (hd r) p (r ! Suc k) = Some (r ! Suc k)"
      by (subst seek_n0.simps) (simp add: lt pv)
    with Suc.prems show ?thesis by auto
  next
    case False
    with r Suc.prems have ne: "r ! k \<noteq> hd r" by (simp add: ring_nth_eq_hd)
    from False Suc have ih: "\<exists>n0 \<in> set r. seek_n0 ns (hd r) p (r ! k) = Some n0" by simp
    show ?thesis
    proof (cases "side (node_pos (ns ! (r ! Suc k))) (node_pos (ns ! (r ! k))) p \<ge> 0")
      case True
      then have "seek_n0 ns (hd r) p (r ! Suc k) = seek_n0 ns (hd r) p (r ! k)"
        by (subst seek_n0.simps) (simp add: lt pv klt ne)
      with ih show ?thesis by simp
    next
      case False
      then have "seek_n0 ns (hd r) p (r ! Suc k) = Some (r ! Suc k)"
        by (subst seek_n0.simps) (simp add: lt pv klt ne)
      with Suc.prems show ?thesis by auto
    qed
  qed
qed

lemma seek_n0_first:
  assumes r: "ring ns r"
  shows "\<exists>n0 \<in> set r. seek_n0 ns (hd r) p (hd r) = Some n0"
proof -
  from r have ne: "r \<noteq> []" by (simp add: ring_def chain_def)
  then have h0: "hd r = r ! 0" and len: "0 < length r" by (simp_all add: hd_conv_nth)
  have lt: "hd r < length ns" using r len h0 by (simp add: ring_nth_lt)
  have pv: "node_prev (ns ! hd r) = last r" using r by (simp add: ring_def)
  have hin: "hd r \<in> set r" using ne by simp
  show ?thesis
  proof (cases "length r = 1")
    case True
    with ne have "last r = hd r" by (cases r) simp_all
    then have "seek_n0 ns (hd r) p (hd r) = Some (hd r)"
      by (subst seek_n0.simps) (simp add: lt pv)
    with hin show ?thesis by simp
  next
    case False
    with ne have l2: "length r - 1 < length r" "0 < length r - 1" by (cases r; simp)+
    have lst: "last r = r ! (length r - 1)" using ne by (simp add: last_conv_nth)
    with r l2 have nh: "last r \<noteq> hd r" by (simp add: ring_nth_eq_hd)
    have llt: "last r < length ns" using r l2 lst by (simp add: ring_nth_lt)
    from seek_n0_from[OF r l2] lst
    have ih: "\<exists>n0 \<in> set r. seek_n0 ns (hd r) p (last r) = Some n0" by simp
    show ?thesis
    proof (cases "side (node_pos (ns ! hd r)) (node_pos (ns ! last r)) p \<ge> 0")
      case True
      then have "seek_n0 ns (hd r) p (hd r) = seek_n0 ns (hd r) p (last r)"
        by (subst seek_n0.simps) (simp add: lt pv llt nh)
      with ih show ?thesis by simp
    next
      case False
      then have "seek_n0 ns (hd r) p (hd r) = Some (hd r)"
        by (subst seek_n0.simps) (simp add: lt pv llt nh)
      with hin show ?thesis by simp
    qed
  qed
qed

lemma seek_n1_from:
  assumes r: "ring ns r"
  shows "k < length r \<Longrightarrow> \<exists>n1 \<in> set r. seek_n1 ns (hd r) p (r ! k) = Some n1"
proof (induction d \<equiv> "length r - Suc k" arbitrary: k)
  case 0
  then have nx: "node_next (ns ! (r ! k)) = hd r" using r by (simp add: ring_next)
  have lt: "r ! k < length ns" using r 0 by (simp add: ring_nth_lt)
  have "seek_n1 ns (hd r) p (r ! k) = Some (r ! k)"
    by (subst seek_n1.simps) (simp add: lt nx)
  with 0 show ?case by auto
next
  case (Suc d)
  then have sk: "Suc k < length r" and d: "d = length r - Suc (Suc k)" by simp_all
  have nx: "node_next (ns ! (r ! k)) = r ! Suc k" using r Suc.prems sk by (simp add: ring_next)
  have lt: "r ! k < length ns" using r Suc.prems by (simp add: ring_nth_lt)
  have slt: "r ! Suc k < length ns" using r sk by (simp add: ring_nth_lt)
  have ne: "r ! Suc k \<noteq> hd r" using r sk by (simp add: ring_nth_eq_hd)
  from Suc.hyps(1)[OF d sk]
  have ih: "\<exists>n1 \<in> set r. seek_n1 ns (hd r) p (r ! Suc k) = Some n1" .
  show ?case
  proof (cases "side (node_pos (ns ! (r ! k))) (node_pos (ns ! (r ! Suc k))) p \<le> 0")
    case True
    then have "seek_n1 ns (hd r) p (r ! k) = seek_n1 ns (hd r) p (r ! Suc k)"
      by (subst seek_n1.simps) (simp add: lt nx slt ne)
    with ih show ?thesis by simp
  next
    case False
    then have "seek_n1 ns (hd r) p (r ! k) = Some (r ! k)"
      by (subst seek_n1.simps) (simp add: lt nx slt ne)
    with Suc.prems show ?thesis by auto
  qed
qed

lemma seek_n1_first:
  assumes r: "ring ns r"
  shows "\<exists>n1 \<in> set r. seek_n1 ns (hd r) p (hd r) = Some n1"
proof -
  from r have ne: "r \<noteq> []" by (simp add: ring_def chain_def)
  with seek_n1_from[OF r, of 0 p] show ?thesis by (simp add: hd_conv_nth)
qed

lemma evict_ring:
  "ring ns r \<Longrightarrow> c < length r \<Longrightarrow>
   \<exists>ns'. evict ns sz (node_next (ns ! (r ! c))) (hd r)
            = Some (ns', sz - int (length r - Suc c)) \<and> same_links ns ns'"
proof (induction d \<equiv> "length r - Suc c" arbitrary: c ns sz)
  case 0
  then have "node_next (ns ! (r ! c)) = hd r" by (simp add: ring_next)
  then have "evict ns sz (node_next (ns ! (r ! c))) (hd r) = Some (ns, sz)"
    by (subst evict.simps) simp
  with 0 show ?case by (auto simp: same_links_refl)
next
  case (Suc d)
  then have sc: "Suc c < length r" and d: "d = length r - Suc (Suc c)" by simp_all
  let ?n = "r ! Suc c"
  let ?ns2 = "ns[?n := (ns ! ?n)\<lparr>node_isValid := False\<rparr>]"
  have nx: "node_next (ns ! (r ! c)) = ?n" using Suc.prems sc by (simp add: ring_next)
  have slt: "?n < length ns" using Suc.prems sc by (simp add: ring_nth_lt)
  have ne: "?n \<noteq> hd r" using Suc.prems sc by (simp add: ring_nth_eq_hd)
  have sl: "same_links ns ?ns2" by (rule same_links_invalidate)
  then have r2: "ring ?ns2 r" using Suc.prems by (auto intro: ring_same_links)
  have nx2: "node_next (?ns2 ! ?n) = node_next (ns ! ?n)" using slt by simp
  from Suc.hyps(1)[OF d r2 sc, of "sz - 1"] obtain ns' where
    ev: "evict ?ns2 (sz - 1) (node_next (?ns2 ! ?n)) (hd r)
           = Some (ns', sz - 1 - int (length r - Suc (Suc c)))" and sl2: "same_links ?ns2 ns'"
    by blast
  have "evict ns sz (node_next (ns ! (r ! c))) (hd r)
          = evict ?ns2 (sz - 1) (node_next (ns ! ?n)) (hd r)"
    by (subst evict.simps) (simp add: nx slt ne)
  with ev nx2 have "evict ns sz (node_next (ns ! (r ! c))) (hd r)
          = Some (ns', sz - 1 - int (length r - Suc (Suc c)))" by simp
  moreover have "sz - 1 - int (length r - Suc (Suc c)) = sz - int (length r - Suc c)"
    using sc by simp
  ultimately show ?case using same_links_trans[OF sl sl2] by auto
qed

lemma ring_rotate1: "ring ns r \<Longrightarrow> ring ns (rotate1 r)"
proof (cases r)
  case Nil
  assume "ring ns r" with Nil show ?thesis by (simp add: ring_def chain_def)
next
  case (Cons x xs)
  assume rg: "ring ns r"
  show ?thesis
  proof (cases xs)
    case Nil
    with Cons rg show ?thesis by simp
  next
    case (Cons y ys)
    let ?r' = "xs @ [x]"
    have lr: "length r = Suc (length xs)" using \<open>r = x # xs\<close> by simp
    have nxt: "\<And>k. k < length r \<Longrightarrow>
        node_next (ns ! (r ! k)) = (if Suc k < length r then r ! Suc k else hd r)"
      using rg by (simp add: ring_next)
    have prv: "\<And>k. k < length r \<Longrightarrow>
        node_prev (ns ! (r ! k)) = (if k = 0 then last r else r ! (k - 1))"
      using rg by (simp add: ring_prev)
    have d: "distinct ?r'" using rg \<open>r = x # xs\<close> by (auto simp: ring_def chain_def)
    have lt: "\<forall>j < length ?r'. ?r' ! j < length ns"
    proof (intro allI impI)
      fix j assume "j < length ?r'"
      then have "?r' ! j \<in> set r" using \<open>r = x # xs\<close>
        by (metis nth_mem rotate1.simps(2) set_rotate1)
      then obtain i where "i < length r" "r ! i = ?r' ! j" by (auto simp: in_set_conv_nth)
      then show "?r' ! j < length ns" using ring_nth_lt[OF rg, of i] by simp
    qed
    have links: "\<forall>j. Suc j < length ?r' \<longrightarrow>
        node_next (ns ! (?r' ! j)) = ?r' ! Suc j \<and> node_prev (ns ! (?r' ! Suc j)) = ?r' ! j"
    proof (intro allI impI)
      fix j assume j: "Suc j < length ?r'"
      then have jl: "j < length xs" by simp
      have a: "?r' ! j = r ! Suc j" using jl \<open>r = x # xs\<close> by (simp add: nth_append)
      show "node_next (ns ! (?r' ! j)) = ?r' ! Suc j \<and> node_prev (ns ! (?r' ! Suc j)) = ?r' ! j"
      proof (cases "Suc j < length xs")
        case True
        then have b: "?r' ! Suc j = r ! Suc (Suc j)" using \<open>r = x # xs\<close> by (simp add: nth_append)
        from True lr nxt[of "Suc j"] prv[of "Suc (Suc j)"] a b show ?thesis by simp
      next
        case False
        with jl have e: "Suc j = length xs" by simp
        then have b: "?r' ! Suc j = x" by (simp add: nth_append)
        have hx: "hd r = x" using \<open>r = x # xs\<close> by simp
        have lx: "last r = r ! Suc j" using \<open>r = x # xs\<close> e Cons by (simp add: last_conv_nth)
        from rg have "node_prev (ns ! hd r) = last r" by (simp add: ring_def)
        with e lr nxt[of "Suc j"] a b hx lx show ?thesis by simp
      qed
    qed
    have c: "chain ns ?r'" using d lt links by (simp add: chain_def)
    have hd': "hd ?r' = y" and last': "last ?r' = x" using Cons by simp_all
    have "node_next (ns ! x) = y" using nxt[of 0] \<open>r = x # xs\<close> Cons by simp
    moreover have "node_prev (ns ! y) = x" using prv[of 1] \<open>r = x # xs\<close> Cons by simp
    ultimately show ?thesis using c hd' last' \<open>r = x # xs\<close> by (simp add: ring_def)
  qed
qed

lemma ring_rotate: "ring ns r \<Longrightarrow> ring ns (rotate n r)"
  by (induction n) (simp_all add: ring_rotate1)

lemma ring_from:
  assumes "ring ns r" and "x \<in> set r"
  shows "\<exists>r'. ring ns r' \<and> hd r' = x \<and> set r' = set r \<and> length r' = length r"
proof -
  from assms(2) obtain k where k: "k < length r" "r ! k = x" by (auto simp: in_set_conv_nth)
  then have "r \<noteq> []" by auto
  with k have "hd (rotate k r) = x" by (simp add: hd_rotate_conv_nth)
  with ring_rotate[OF assms(1), of k] show ?thesis by (intro exI[of _ "rotate k r"]) simp
qed

lemma chain_take: "ring ns r \<Longrightarrow> 0 < n \<Longrightarrow> chain ns (take n r)"
  by (auto simp: ring_def chain_def)

lemma makeNode_chain:
  assumes cl: "closed_nodes ns" and ch: "chain ns t"
  shows "\<exists>ns'. makeNode ns p (Some (last t)) (Some (hd t)) = Some (ns', length ns) \<and>
           ring ns' (length ns # t) \<and> closed_nodes ns' \<and> length ns' = Suc (length ns)"
proof -
  let ?k = "length ns"
  from ch have ne: "t \<noteq> []" and dt: "distinct t"
    and lt: "\<And>j. j < length t \<Longrightarrow> t ! j < ?k"
    and lk: "\<And>j. Suc j < length t \<Longrightarrow>
               node_next (ns ! (t ! j)) = t ! Suc j \<and> node_prev (ns ! (t ! Suc j)) = t ! j"
    by (simp_all add: chain_def)
  have hdt: "hd t = t ! 0" and lastt: "last t = t ! (length t - 1)"
    using ne by (simp_all add: hd_conv_nth last_conv_nth)
  have lent: "0 < length t" using ne by simp
  have hlt: "hd t < ?k" and llt: "last t < ?k" using lt[of 0] lt[of "length t - 1"] hdt lastt lent
    by simp_all
  from makeNode_links[OF llt hlt, of p] obtain ns' where
    mk: "makeNode ns p (Some (last t)) (Some (hd t)) = Some (ns', ?k)"
    and len: "length ns' = Suc ?k"
    and pk: "node_prev (ns' ! ?k) = last t" and nk: "node_next (ns' ! ?k) = hd t"
    and old: "\<And>q. q < ?k \<Longrightarrow>
         node_next (ns' ! q) = (if q = last t then ?k else node_next (ns ! q)) \<and>
         node_prev (ns' ! q) = (if q = hd t then ?k else node_prev (ns ! q))"
    by blast
  have knt: "?k \<notin> set t"
  proof
    assume "?k \<in> set t"
    then obtain i where "i < length t" "t ! i = ?k" by (auto simp: in_set_conv_nth)
    with lt[of i] show False by simp
  qed
  have links: "\<forall>j. Suc j < length (?k # t) \<longrightarrow>
        node_next (ns' ! ((?k # t) ! j)) = (?k # t) ! Suc j \<and>
        node_prev (ns' ! ((?k # t) ! Suc j)) = (?k # t) ! j"
  proof (intro allI impI)
    fix j assume j: "Suc j < length (?k # t)"
    show "node_next (ns' ! ((?k # t) ! j)) = (?k # t) ! Suc j \<and>
          node_prev (ns' ! ((?k # t) ! Suc j)) = (?k # t) ! j"
    proof (cases j)
      case 0
      with nk old[OF hlt] hdt show ?thesis by simp
    next
      case (Suc i)
      with j have si: "Suc i < length t" by simp
      then have il: "i < length t" by simp
      have n1: "t ! i \<noteq> last t" using dt si lastt by (simp add: nth_eq_iff_index_eq)
      have n2: "t ! Suc i \<noteq> hd t" using dt si hdt lent by (simp add: nth_eq_iff_index_eq)
      from old[OF lt[OF il]] old[OF lt[OF si]] n1 n2 lk[OF si] Suc show ?thesis by simp
    qed
  qed
  have c: "chain ns' (?k # t)"
    unfolding chain_def using dt knt links len lt
    by (auto simp: nth_Cons split: nat.splits intro: less_SucI)
  have r: "ring ns' (?k # t)"
    using c ne pk old[OF llt] by (simp add: ring_def)
  have cl': "closed_nodes ns'"
    unfolding closed_nodes_def
  proof (intro allI impI)
    fix q assume "q < length ns'"
    with len have "q < ?k \<or> q = ?k" by auto
    then show "node_prev (ns' ! q) < length ns' \<and> node_next (ns' ! q) < length ns'"
    proof
      assume q: "q < ?k"
      with cl have "node_prev (ns ! q) < ?k" "node_next (ns ! q) < ?k"
        by (simp_all add: closed_nodes_def)
      with old[OF q] len show ?thesis by (auto intro: less_SucI)
    next
      assume "q = ?k"
      with pk nk hlt llt len show ?thesis by simp
    qed
  qed
  from mk r cl' len show ?thesis by blast
qed

lemma makeNode_fresh:
  assumes cl: "closed_nodes ns"
  shows "\<exists>ns'. makeNode ns p None None = Some (ns', length ns) \<and>
           ring ns' [length ns] \<and> closed_nodes ns' \<and> length ns' = Suc (length ns)"
proof -
  from makeNode_self[of ns p] obtain ns' where
    mk: "makeNode ns p None None = Some (ns', length ns)"
    and len: "length ns' = Suc (length ns)"
    and pk: "node_prev (ns' ! length ns) = length ns"
    and nk: "node_next (ns' ! length ns) = length ns"
    and old: "\<And>q. q < length ns \<Longrightarrow>
         node_next (ns' ! q) = node_next (ns ! q) \<and> node_prev (ns' ! q) = node_prev (ns ! q)"
    by blast
  have r: "ring ns' [length ns]" using len pk nk by (simp add: ring_def chain_def)
  have cl': "closed_nodes ns'"
    unfolding closed_nodes_def
  proof (intro allI impI)
    fix q assume "q < length ns'"
    with len have "q < length ns \<or> q = length ns" by auto
    then show "node_prev (ns' ! q) < length ns' \<and> node_next (ns' ! q) < length ns'"
    proof
      assume q: "q < length ns"
      with cl have "node_prev (ns ! q) < length ns" "node_next (ns ! q) < length ns"
        by (simp_all add: closed_nodes_def)
      with old[OF q] len show ?thesis by simp
    next
      assume "q = length ns"
      with pk nk len show ?thesis by simp
    qed
  qed
  from mk r cl' len show ?thesis by blast
qed

lemma hull_ok_ring:
  "closed_nodes ns \<Longrightarrow> ring ns r \<Longrightarrow>
     hull_ok \<lparr>hull_nodes = ns, hull_first = Some (hd r), hull_size = int (length r)\<rparr>"
  by (auto simp: hull_ok_def)

lemma offer_empty:
  assumes ok: "hull_ok h" and f: "hull_first h = None"
  shows "\<exists>h'. offer h p = Some (Some (length (hull_nodes h)), h') \<and>
               offer_post h (Some (length (hull_nodes h))) h'"
proof -
  from ok f have sz: "hull_size h = 0" and cl: "closed_nodes (hull_nodes h)"
    by (simp_all add: hull_ok_def)
  from makeNode_fresh[OF cl, of p] obtain ns' where
    mk: "makeNode (hull_nodes h) p None None = Some (ns', length (hull_nodes h))"
    and r: "ring ns' [length (hull_nodes h)]" and cl': "closed_nodes ns'"
    and len: "length ns' = Suc (length (hull_nodes h))" by blast
  let ?h' = "\<lparr>hull_nodes = ns', hull_first = Some (length (hull_nodes h)), hull_size = 1\<rparr>"
  have "offer h p = Some (Some (length (hull_nodes h)), ?h')"
    using sz mk by (simp add: offer_def offer_links_def)
  moreover have "hull_ok ?h'" using hull_ok_ring[OF cl' r] by simp
  ultimately show ?thesis using len by (auto simp: offer_post_def)
qed

lemma offer_one:
  assumes cl: "closed_nodes (hull_nodes h)" and rg: "ring (hull_nodes h) [f]"
    and fst: "hull_first h = Some f" and sz: "hull_size h = 1"
  shows "\<exists>h'. offer h p = Some (Some (length (hull_nodes h)), h') \<and>
               offer_post h (Some (length (hull_nodes h))) h'"
proof -
  let ?ns = "hull_nodes h"
  from rg have ch: "chain ?ns [f]" by (simp add: ring_def)
  from makeNode_chain[OF cl ch, of p] obtain ns' where
    mk: "makeNode ?ns p (Some f) (Some f) = Some (ns', length ?ns)"
    and r: "ring ns' [length ?ns, f]" and cl': "closed_nodes ns'"
    and len: "length ns' = Suc (length ?ns)" by auto
  let ?h' = "\<lparr>hull_nodes = ns', hull_first = Some (length ?ns), hull_size = 2\<rparr>"
  have "offer h p = Some (Some (length ?ns), ?h')"
    using sz mk fst by (simp add: offer_def offer_links_def)
  moreover have "hull_ok ?h'" using hull_ok_ring[OF cl' r] by simp
  ultimately show ?thesis using len by (auto simp: offer_post_def)
qed

lemma offer_two:
  assumes cl: "closed_nodes (hull_nodes h)" and rg: "ring (hull_nodes h) [f, q]"
    and fst: "hull_first h = Some f" and sz: "hull_size h = 2"
  shows "\<exists>h'. offer h p = Some (Some (length (hull_nodes h)), h') \<and>
               offer_post h (Some (length (hull_nodes h))) h'"
proof -
  let ?ns = "hull_nodes h"
  let ?k = "length ?ns"
  from rg have flt: "f < ?k" and qlt: "q < ?k" and fq: "f \<noteq> q"
    and nf: "node_next (?ns ! f) = q" and pf: "node_prev (?ns ! f) = q"
    and nq: "node_next (?ns ! q) = f" and pq: "node_prev (?ns ! q) = f"
    using ring_nth_lt[OF rg, of 0] ring_nth_lt[OF rg, of 1]
          ring_next[OF rg, of 0] ring_prev[OF rg, of 0]
          ring_next[OF rg, of 1] ring_prev[OF rg, of 1]
    by (simp_all add: ring_def chain_def)
  let ?s = "side (node_pos (?ns ! f)) (node_pos (?ns ! q)) p"
  consider (neg) "?s < 0" | (pos) "?s > 0" | (zero) "?s = 0" by linarith
  then show ?thesis
  proof cases
    case neg
    have ch: "chain ?ns [q, f]" using flt qlt fq nq pf by (auto simp: chain_def less_Suc_eq)
    from makeNode_chain[OF cl ch, of p] obtain ns' where
      mk: "makeNode ?ns p (Some f) (Some q) = Some (ns', ?k)"
      and r: "ring ns' [?k, q, f]" and cl': "closed_nodes ns'"
      and len: "length ns' = Suc ?k" by auto
    let ?h' = "\<lparr>hull_nodes = ns', hull_first = Some ?k, hull_size = 3\<rparr>"
    have "offer h p = Some (Some ?k, ?h')"
      using sz mk fst flt qlt nf neg by (simp add: offer_def offer_links_def)
    moreover have "hull_ok ?h'" using hull_ok_ring[OF cl' r] by simp
    ultimately show ?thesis using len by (auto simp: offer_post_def)
  next
    case pos
    have ch: "chain ?ns [f, q]" using rg by (simp add: ring_def)
    from makeNode_chain[OF cl ch, of p] obtain ns' where
      mk: "makeNode ?ns p (Some q) (Some f) = Some (ns', ?k)"
      and r: "ring ns' [?k, f, q]" and cl': "closed_nodes ns'"
      and len: "length ns' = Suc ?k" by auto
    let ?h' = "\<lparr>hull_nodes = ns', hull_first = Some ?k, hull_size = 3\<rparr>"
    have "offer h p = Some (Some ?k, ?h')"
      using sz mk fst flt qlt nf pf pos by (simp add: offer_def offer_links_def)
    moreover have "hull_ok ?h'" using hull_ok_ring[OF cl' r] by simp
    ultimately show ?thesis using len by (auto simp: offer_post_def)
  next
    case zero
    let ?inv = "?ns[f := (?ns ! f)\<lparr>node_isValid := False\<rparr>]"
    have sl: "same_links ?ns ?inv" by (rule same_links_invalidate)
    have clz: "closed_nodes ?inv" using closed_same_links[OF sl cl] .
    have ch: "chain ?inv [q]" using qlt by (simp add: chain_def)
    from makeNode_chain[OF clz ch, of p] obtain ns' where
      mk: "makeNode ?inv p (Some q) (Some q) = Some (ns', ?k)"
      and r: "ring ns' [?k, q]" and cl': "closed_nodes ns'"
      and len: "length ns' = Suc ?k" by auto
    let ?h' = "\<lparr>hull_nodes = ns', hull_first = Some ?k, hull_size = 2\<rparr>"
    have "offer h p = Some (Some ?k, ?h')"
      using sz mk fst flt qlt nf pf zero by (simp add: offer_def offer_links_def)
    moreover have "hull_ok ?h'" using hull_ok_ring[OF cl' r] by simp
    ultimately show ?thesis using len by (auto simp: offer_post_def)
  qed
qed

lemma offer_many:
  assumes cl: "closed_nodes (hull_nodes h)" and rg: "ring (hull_nodes h) r"
    and fst: "hull_first h = Some (hd r)" and sz: "hull_size h = int (length r)"
    and big: "3 \<le> length r"
  shows "\<exists>res h'. offer h p = Some (res, h') \<and> offer_post h res h'"
proof -
  let ?ns = "hull_nodes h"
  let ?k = "length ?ns"
  from rg have rne: "r \<noteq> []" by (simp add: ring_def chain_def)
  have hlt: "hd r < ?k" using ring_nth_lt[OF rg, of 0] rne by (simp add: hd_conv_nth)
  from seek_n0_first[OF rg, of p] obtain n0 where
    n0: "n0 \<in> set r" "seek_n0 ?ns (hd r) p (hd r) = Some n0" by blast
  from seek_n1_first[OF rg, of p] obtain n1 where
    n1: "n1 \<in> set r" "seek_n1 ?ns (hd r) p (hd r) = Some n1" by blast
  have ok: "hull_ok h" using cl rg fst sz by (auto simp: hull_ok_def)
  show ?thesis
  proof (cases "n0 = n1")
    case True
    then have "offer h p = Some (None, h)"
      using sz big fst n0 n1 hlt by (simp add: offer_def offer_links_def)
    then show ?thesis using ok by (simp add: offer_post_def)
  next
    case False
    from ring_from[OF rg n1(1)] obtain r' where
      rg': "ring ?ns r'" and hd': "hd r' = n1" and set': "set r' = set r"
      and len': "length r' = length r" by blast
    from n0(1) set' have "n0 \<in> set r'" by simp
    then obtain c where c: "c < length r'" "r' ! c = n0"
      by (auto simp: in_set_conv_nth)
    have n0lt: "n0 < ?k" using ring_nth_lt[OF rg' c(1)] c(2) by simp
    from evict_ring[OF rg' c(1), of "hull_size h"] c(2) hd' obtain ns1 where
      ev: "evict ?ns (hull_size h) (node_next (?ns ! n0)) n1
             = Some (ns1, hull_size h - int (length r' - Suc c))"
      and sl: "same_links ?ns ns1" by auto
    have cl1: "closed_nodes ns1" using closed_same_links[OF sl cl] .
    have rg1: "ring ns1 r'" using ring_same_links[OF sl rg'] .
    have len1: "length ns1 = ?k" using sl by (simp add: same_links_def)
    let ?t = "take (Suc c) r'"
    have ch: "chain ns1 ?t" using chain_take[OF rg1, of "Suc c"] by simp
    have r'ne: "r' \<noteq> []" using c(1) by auto
    have hdt: "hd ?t = n1" using hd' r'ne by (cases r') simp_all
    have lastt: "last ?t = n0" using c by (simp add: take_Suc_conv_app_nth)
    have lent: "length ?t = Suc c" using c(1) by simp
    from makeNode_chain[OF cl1 ch, of p] hdt lastt len1 obtain ns2 where
      mk: "makeNode ns1 p (Some n0) (Some n1) = Some (ns2, ?k)"
      and r2: "ring ns2 (?k # ?t)" and cl2: "closed_nodes ns2"
      and len2: "length ns2 = Suc ?k" by auto
    let ?h' = "\<lparr>hull_nodes = ns2, hull_first = Some ?k,
                hull_size = hull_size h - int (length r' - Suc c) + 1\<rparr>"
    have "offer h p = Some (Some ?k, ?h')"
      using sz big fst n0 n1 hlt False n0lt ev mk by (simp add: offer_def offer_links_def)
    moreover have "hull_size h - int (length r' - Suc c) + 1 = int (length (?k # ?t))"
      using sz len' c(1) lent by simp
    then have "hull_ok ?h'" using hull_ok_ring[OF cl2 r2] by (simp add: add.commute)
    ultimately show ?thesis using len2 by (auto simp: offer_post_def)
  qed
qed

lemma offer_total:
  assumes ok: "hull_ok h"
  shows "\<exists>res h'. offer h p = Some (res, h') \<and> offer_post h res h'"
proof (cases "hull_first h")
  case None
  with offer_empty[OF ok, of p] show ?thesis by blast
next
  case (Some f)
  with ok obtain r where cl: "closed_nodes (hull_nodes h)" and rg: "ring (hull_nodes h) r"
    and hd: "hd r = f" and sz: "hull_size h = int (length r)"
    by (auto simp: hull_ok_def)
  from rg have rne: "r \<noteq> []" by (simp add: ring_def chain_def)
  from rne have "0 < length r" by simp
  then consider (one) "length r = 1" | (two) "length r = 2" | (many) "3 \<le> length r"
    by linarith
  then show ?thesis
  proof cases
    case one
    with hd have "r = [f]" by (cases r) simp_all
    with offer_one[OF cl _ Some, of p] rg sz show ?thesis by auto
  next
    case two
    with hd obtain q where "r = [f, q]" by (cases r; cases "tl r") auto
    with offer_two[OF cl _ Some, of q p] rg sz show ?thesis by auto
  next
    case many
    with offer_many[OF cl rg _ sz, of p] Some hd show ?thesis by simp
  qed
qed

lemma hull_ok_new: "hull_ok SimplePathHull_new"
  by (simp add: hull_ok_def SimplePathHull_new_def closed_nodes_def)

lemma offer_new:
  "\<exists>h'. offer SimplePathHull_new p = Some (Some 0, h') \<and> hull_ok h' \<and> 0 < length (hull_nodes h')"
  using offer_empty[OF hull_ok_new, of p]
  by (auto simp: SimplePathHull_new_def offer_post_def)

lemma isPioneer_total:
  "closed_nodes ns \<Longrightarrow> k < length ns \<Longrightarrow> \<exists>b. isPioneer line ns k = Some b"
  by (auto simp: isPioneer_def closed_nodes_def Let_def)

subsection \<open>One scan\<close>

text \<open>
  What one iteration and then the whole loop of \<open>onAddPoint\<close> do to the tags, to the
  candidate predecessor and to the trace, and that the loop returns.
\<close>

lemma tags_le_refl: "tags_le ts ts"
  by (simp add: tags_le_def)

lemma tags_le_trans: "tags_le a b \<Longrightarrow> tags_le b c \<Longrightarrow> tags_le a c"
  by (simp add: tags_le_def)

lemma tags_le_cut: "i < length ts \<Longrightarrow> tags_le ts (ts[i := (ts ! i)\<lparr>tag_cut := True\<rparr>])"
  by (auto simp: tags_le_def nth_list_update)

lemma tags_le_nth:
  "tags_le a b \<Longrightarrow> k < length a \<Longrightarrow>
     tag_dist (b ! k) = tag_dist (a ! k) \<and> tag_next (b ! k) = tag_next (a ! k) \<and>
     (tag_cut (a ! k) \<longrightarrow> tag_cut (b ! k))"
  by (simp add: tags_le_def)

lemma scan_body_facts:
  assumes "scan_body pth ftr thrSq j pj nj i st = Some r"
  shows "tags_le (sc_tags st) (sc_tags (exit_state r))"
    and "length (sc_trace (exit_state r)) = Suc (length (sc_trace st))"
    and "(sc_next (exit_state r) = sc_next st \<and> sc_dist (exit_state r) = sc_dist st) \<or>
         (sc_next (exit_state r) = int i \<and> sc_dist (exit_state r) = tag_dist (sc_tags st ! i) \<and>
          \<not> is_break r)"
    and "tag_cut (sc_tags st ! i) \<longrightarrow> is_break r \<and> last (sc_trace (exit_state r)) = Cut"
    and "\<forall>k < length (sc_tags st). tag_cut (sc_tags (exit_state r) ! k) \<longrightarrow>
           tag_cut (sc_tags st ! k) \<or> (k = i \<and> int i < int j - 2)"
  using assms
  unfolding scan_body_def Let_def exit_state_def is_break_def
  by (auto split: if_splits Option.bind_splits option.splits prod.splits
           simp: tags_le_refl tags_le_cut nth_list_update)

lemma scan_post_0: "scan_post j 0 st st"
  by (simp add: scan_post_def tags_le_refl)

lemma scan_post_break:
  assumes le: "tags_le (sc_tags st) (sc_tags st1)"
    and tr: "length (sc_trace st1) = Suc (length (sc_trace st))"
    and nx: "sc_next st1 = sc_next st \<and> sc_dist st1 = sc_dist st"
    and ct: "tag_cut (sc_tags st ! n) \<longrightarrow> last (sc_trace st1) = Cut"
    and nw: "\<forall>k < length (sc_tags st). tag_cut (sc_tags st1 ! k) \<longrightarrow>
               tag_cut (sc_tags st ! k) \<or> (k = n \<and> int n < int j - 2)"
  shows "scan_post j (Suc n) st st1"
  unfolding scan_post_def
proof (intro conjI allI impI)
  show "tags_le (sc_tags st) (sc_tags st1)" by (rule le)
  show "(sc_next st1 = sc_next st \<and> sc_dist st1 = sc_dist st) \<or>
        (0 \<le> sc_next st1 \<and> sc_next st1 < int (Suc n) \<and>
         sc_dist st1 = tag_dist (sc_tags st ! nat (sc_next st1)) \<and>
         (\<forall>i < Suc n. tag_cut (sc_tags st ! i) \<longrightarrow> int i < sc_next st1))"
    using nx by simp
  show "length (sc_trace st1) \<le> length (sc_trace st) + Suc n" using tr by simp
next
  fix k assume "k < length (sc_tags st)" "tag_cut (sc_tags st1 ! k)"
  with nw show "tag_cut (sc_tags st ! k) \<or> (k + 2 < j \<and> k < Suc n)" by auto
next
  fix i assume i: "i < Suc n" "tag_cut (sc_tags st ! i)"
  then show "length (sc_trace st1) \<le> length (sc_trace st) + (Suc n - i)" using tr by simp
  assume "length (sc_trace st1) = length (sc_trace st) + (Suc n - i)"
  with tr i have "i = n" by simp
  with i ct show "last (sc_trace st1) = Cut" by simp
qed

lemma scan_post_continue:
  assumes le: "tags_le (sc_tags st) (sc_tags st1)"
    and tr: "length (sc_trace st1) = Suc (length (sc_trace st))"
    and nx: "(sc_next st1 = sc_next st \<and> sc_dist st1 = sc_dist st) \<or>
             (sc_next st1 = int n \<and> sc_dist st1 = tag_dist (sc_tags st ! n))"
    and ct: "\<not> tag_cut (sc_tags st ! n)"
    and nw: "\<forall>k < length (sc_tags st). tag_cut (sc_tags st1 ! k) \<longrightarrow>
               tag_cut (sc_tags st ! k) \<or> (k = n \<and> int n < int j - 2)"
    and nl: "n < length (sc_tags st)"
    and ih: "scan_post j n st1 st'"
  shows "scan_post j (Suc n) st st'"
proof -
  from le have len1: "length (sc_tags st1) = length (sc_tags st)" by (simp add: tags_le_def)
  from ih have le2: "tags_le (sc_tags st1) (sc_tags st')"
    and nx2: "(sc_next st' = sc_next st1 \<and> sc_dist st' = sc_dist st1) \<or>
      (0 \<le> sc_next st' \<and> sc_next st' < int n \<and>
       sc_dist st' = tag_dist (sc_tags st1 ! nat (sc_next st')) \<and>
       (\<forall>i < n. tag_cut (sc_tags st1 ! i) \<longrightarrow> int i < sc_next st'))"
    and nw2: "\<forall>k < length (sc_tags st1). tag_cut (sc_tags st' ! k) \<longrightarrow>
        tag_cut (sc_tags st1 ! k) \<or> (k + 2 < j \<and> k < n)"
    and tr2: "length (sc_trace st') \<le> length (sc_trace st1) + n"
    and ct2: "\<forall>i < n. tag_cut (sc_tags st1 ! i) \<longrightarrow>
        length (sc_trace st') \<le> length (sc_trace st1) + (n - i) \<and>
        (length (sc_trace st') = length (sc_trace st1) + (n - i) \<longrightarrow> last (sc_trace st') = Cut)"
    by (simp_all add: scan_post_def)
  have cut_mono: "\<And>i. i < n \<Longrightarrow> tag_cut (sc_tags st ! i) \<Longrightarrow> tag_cut (sc_tags st1 ! i)"
    using le nl by (simp add: tags_le_def)
  have cut_lt: "\<And>i. i < Suc n \<Longrightarrow> tag_cut (sc_tags st ! i) \<Longrightarrow> i < n"
    using ct by (auto simp: less_Suc_eq)
  show ?thesis
    unfolding scan_post_def
  proof (intro conjI allI impI)
    show "tags_le (sc_tags st) (sc_tags st')" using le le2 by (rule tags_le_trans)
    show "(sc_next st' = sc_next st \<and> sc_dist st' = sc_dist st) \<or>
          (0 \<le> sc_next st' \<and> sc_next st' < int (Suc n) \<and>
           sc_dist st' = tag_dist (sc_tags st ! nat (sc_next st')) \<and>
           (\<forall>i < Suc n. tag_cut (sc_tags st ! i) \<longrightarrow> int i < sc_next st'))"
      using nx2
    proof
      assume same: "sc_next st' = sc_next st1 \<and> sc_dist st' = sc_dist st1"
      from nx show ?thesis
      proof
        assume "sc_next st1 = sc_next st \<and> sc_dist st1 = sc_dist st"
        with same show ?thesis by simp
      next
        assume "sc_next st1 = int n \<and> sc_dist st1 = tag_dist (sc_tags st ! n)"
        with same cut_lt show ?thesis by auto
      qed
    next
      assume new: "0 \<le> sc_next st' \<and> sc_next st' < int n \<and>
         sc_dist st' = tag_dist (sc_tags st1 ! nat (sc_next st')) \<and>
         (\<forall>i < n. tag_cut (sc_tags st1 ! i) \<longrightarrow> int i < sc_next st')"
      then have "nat (sc_next st') < length (sc_tags st)" using nl by linarith
      with le have "tag_dist (sc_tags st1 ! nat (sc_next st')) = tag_dist (sc_tags st ! nat (sc_next st'))"
        by (simp add: tags_le_def)
      moreover have "\<forall>i < Suc n. tag_cut (sc_tags st ! i) \<longrightarrow> int i < sc_next st'"
        using new cut_lt cut_mono by blast
      ultimately show ?thesis using new by simp
    qed
    show "length (sc_trace st') \<le> length (sc_trace st) + Suc n" using tr tr2 by simp
  next
    fix k assume k: "k < length (sc_tags st)" "tag_cut (sc_tags st' ! k)"
    with nw2 len1 have "tag_cut (sc_tags st1 ! k) \<or> (k + 2 < j \<and> k < n)" by simp
    with nw k show "tag_cut (sc_tags st ! k) \<or> (k + 2 < j \<and> k < Suc n)" by auto
  next
    fix i assume i: "i < Suc n" "tag_cut (sc_tags st ! i)"
    then have il: "i < n" by (rule cut_lt)
    with i cut_mono have c1: "tag_cut (sc_tags st1 ! i)" by simp
    with ct2 il have a: "length (sc_trace st') \<le> length (sc_trace st1) + (n - i)"
      and b: "length (sc_trace st') = length (sc_trace st1) + (n - i) \<longrightarrow> last (sc_trace st') = Cut"
      by simp_all
    from a tr il show "length (sc_trace st') \<le> length (sc_trace st) + (Suc n - i)" by simp
    assume "length (sc_trace st') = length (sc_trace st) + (Suc n - i)"
    with tr il have "length (sc_trace st') = length (sc_trace st1) + (n - i)" by simp
    with b show "last (sc_trace st') = Cut" by simp
  qed
qed

lemma scan_facts:
  "scan pth ftr thrSq j pj nj n st = Some st' \<Longrightarrow> n \<le> length (sc_tags st) \<Longrightarrow>
     scan_post j n st st'"
proof (induction n arbitrary: st)
  case 0
  then show ?case by (simp add: scan_post_0)
next
  case (Suc n)
  from Suc.prems(1) obtain r where
    body: "scan_body pth ftr thrSq j pj nj n st = Some r"
    and rest: "(case r of Break s \<Rightarrow> Some s | Continue s \<Rightarrow> scan pth ftr thrSq j pj nj n s) = Some st'"
    by (auto split: Option.bind_splits)
  note f = scan_body_facts[OF body]
  show ?case
  proof (cases r)
    case (Break s)
    with rest have "s = st'" by simp
    with Break f show ?thesis
      by (intro scan_post_break) (auto simp: exit_state_def is_break_def)
  next
    case (Continue s)
    with rest have sc: "scan pth ftr thrSq j pj nj n s = Some st'" by simp
    from Continue f(1) have le: "tags_le (sc_tags st) (sc_tags s)" by (simp add: exit_state_def)
    then have "n \<le> length (sc_tags s)" using Suc.prems(2) by (simp add: tags_le_def)
    from Suc.IH[OF sc this] have ih: "scan_post j n s st'" .
    from Continue f Suc.prems(2) ih show ?thesis
      by (intro scan_post_continue[where ?st1.0 = s]) (auto simp: exit_state_def is_break_def)
  qed
qed

lemma bind_eval_cong: "m = m' \<Longrightarrow> Option.bind m f = Option.bind m' f" by simp
lemma let_eval_cong: "a = b \<Longrightarrow> Let a f = Let b f" by simp

lemma scan_body_total:
  assumes i: "i < length pth" "i < j" "j \<le> length pth" "i < length (sc_tags st)"
    and cov: "sums_cover ftr (Suc j)"
    and ok: "hull_ok (sc_hull st)"
    and nj: "nj = Some k" "k < length (hull_nodes (sc_hull st))"
  shows "\<exists>r. scan_body pth ftr thrSq j pj nj i st = Some r \<and>
              hull_ok (sc_hull (exit_state r)) \<and>
              length (hull_nodes (sc_hull st)) \<le> length (hull_nodes (sc_hull (exit_state r)))"
proof -
  from fitLine_total[OF cov, of i] i obtain l where l: "fitLine ftr (int i) (int j) = Some l"
    by auto
  from offer_total[OF ok, of "pth ! i"] obtain res h' where
    off: "offer (sc_hull st) (pth ! i) = Some (res, h')" and post: "offer_post (sc_hull st) res h'"
    by blast
  from post have ok': "hull_ok h'" and grow: "length (hull_nodes (sc_hull st)) \<le> length (hull_nodes h')"
    and resk: "\<And>q. res = Some q \<Longrightarrow> q < length (hull_nodes h')"
    by (auto simp: offer_post_def)
  from ok' have cl: "closed_nodes (hull_nodes h')" by (simp add: hull_ok_def)
  obtain b1 where b1: "(case res of None \<Rightarrow> Some False | Some q \<Rightarrow> isPioneer l (hull_nodes h') q) = Some b1"
    using isPioneer_total[OF cl resk, of _ l] by (cases res) auto
  from nj grow have "k < length (hull_nodes h')" by simp
  from isPioneer_total[OF cl this, of l] obtain b2 where b2: "isPioneer l (hull_nodes h') k = Some b2"
    by blast
  have r1: "int i < int j - 2 \<Longrightarrow> nth_opt pth (int i + 1) = Some (pth ! Suc i)"
    using i by (simp add: nth_opt_def nat_add_distrib)
  have r2: "nth_opt pth (int j - 1) = Some (pth ! (j - 1))"
    using i by (simp add: nth_opt_def nat_diff_distrib)
  have "\<exists>cr. (if tag_cut (sc_tags st ! i) then Some True
        else if int i < int j - 2 then do {
          pi1 \<leftarrow> nth_opt pth (int i + 1);
          pj1 \<leftarrow> nth_opt pth (int j - 1);
          Some (intersect (pth ! i) pi1 pj1 pj)
        }
        else Some False) = Some cr"
    using r1 r2 by (cases "int i < int j - 2") auto
  then obtain cr where cr: "(if tag_cut (sc_tags st ! i) then Some True
        else if int i < int j - 2 then do {
          pi1 \<leftarrow> nth_opt pth (int i + 1);
          pj1 \<leftarrow> nth_opt pth (int j - 1);
          Some (intersect (pth ! i) pi1 pj1 pj)
        }
        else Some False) = Some cr" by blast
  show ?thesis
    unfolding scan_body_def
    using i(1,4) l off b1 b2 nj(1) ok ok' grow cr
    by (simp add: Let_def exit_state_def cong: bind_eval_cong let_eval_cong)
qed

lemma scan_total:
  "n \<le> j \<Longrightarrow> j \<le> length pth \<Longrightarrow> n \<le> length (sc_tags st) \<Longrightarrow> sums_cover ftr (Suc j) \<Longrightarrow>
   hull_ok (sc_hull st) \<Longrightarrow> k < length (hull_nodes (sc_hull st)) \<Longrightarrow>
   \<exists>st'. scan pth ftr thrSq j pj (Some k) n st = Some st'"
proof (induction n arbitrary: st)
  case 0
  then show ?case by simp
next
  case (Suc n)
  from Suc.prems have "n < length pth" "n < j" "n < length (sc_tags st)" by simp_all
  from scan_body_total[OF this(1,2) Suc.prems(2) this(3) Suc.prems(4,5) refl Suc.prems(6)]
  obtain r where body: "scan_body pth ftr thrSq j pj (Some k) n st = Some r"
    and ok: "hull_ok (sc_hull (exit_state r))"
    and grow: "length (hull_nodes (sc_hull st)) \<le> length (hull_nodes (sc_hull (exit_state r)))"
    by blast
  show ?case
  proof (cases r)
    case (Break s)
    with body show ?thesis by simp
  next
    case (Continue s)
    from scan_body_facts(1)[OF body] Continue have "tags_le (sc_tags st) (sc_tags s)"
      by (simp add: exit_state_def)
    then have len: "n \<le> length (sc_tags s)" using Suc.prems(3) by (simp add: tags_le_def)
    from ok grow Continue Suc.prems(6) have "hull_ok (sc_hull s)" "k < length (hull_nodes (sc_hull s))"
      by (simp_all add: exit_state_def)
    from Suc.IH[OF _ Suc.prems(2) len Suc.prems(4) this] Suc.prems(1)
    obtain st' where "scan pth ftr thrSq j pj (Some k) n s = Some st'" by auto
    with body Continue show ?thesis by simp
  qed
qed

subsection \<open>One append\<close>

text \<open>Every append returns and keeps the shape of the tag table.\<close>

lemma tags_ok_snoc:
  assumes ok: "tags_ok ts" and le: "tags_le ts ts'"
    and nc: "\<forall>k < length ts. tag_cut (ts' ! k) \<longrightarrow> tag_cut (ts ! k) \<or> k + 2 < length ts"
    and nx: "0 \<le> nx" "nx < int (length ts)" and d: "d = tag_dist (ts ! nat nx)"
    and ne: "ts \<noteq> []"
  shows "tags_ok (ts' @ [\<lparr>tag_dist = d + 1, tag_next = nx, tag_cut = False\<rparr>])"
  unfolding tags_ok_def
proof (intro allI impI)
  let ?new = "\<lparr>tag_dist = d + 1, tag_next = nx, tag_cut = False\<rparr>"
  let ?ts = "ts' @ [?new]"
  from le have len: "length ts' = length ts" by (simp add: tags_le_def)
  fix j assume j: "j < length ?ts"
  show "(j = 0 \<longrightarrow> tag_next (?ts ! j) = - 1 \<and> tag_dist (?ts ! j) = 0) \<and>
        (0 < j \<longrightarrow> 0 \<le> tag_next (?ts ! j) \<and> tag_next (?ts ! j) < int j \<and>
                   tag_dist (?ts ! j) = tag_dist (?ts ! nat (tag_next (?ts ! j))) + 1) \<and>
        (tag_cut (?ts ! j) \<longrightarrow> j + 3 < length ?ts)"
  proof (cases "j < length ts")
    case True
    then have e: "?ts ! j = ts' ! j" by (simp add: nth_append len)
    from le True have same: "tag_dist (ts' ! j) = tag_dist (ts ! j)" "tag_next (ts' ! j) = tag_next (ts ! j)"
      by (simp_all add: tags_le_def)
    from ok True have o:
      "j = 0 \<longrightarrow> tag_next (ts ! j) = - 1 \<and> tag_dist (ts ! j) = 0"
      "0 < j \<longrightarrow> 0 \<le> tag_next (ts ! j) \<and> tag_next (ts ! j) < int j \<and>
                   tag_dist (ts ! j) = tag_dist (ts ! nat (tag_next (ts ! j))) + 1"
      "tag_cut (ts ! j) \<longrightarrow> j + 3 < length ts"
      by (simp_all add: tags_ok_def)
    have p: "0 < j \<Longrightarrow> tag_dist (?ts ! nat (tag_next (ts ! j))) = tag_dist (ts ! nat (tag_next (ts ! j)))"
    proof -
      assume "0 < j"
      with o(2) True have "nat (tag_next (ts ! j)) < length ts" by linarith
      with le show ?thesis by (simp add: nth_append len tags_le_def)
    qed
    from nc True have c: "tag_cut (ts' ! j) \<longrightarrow> tag_cut (ts ! j) \<or> j + 2 < length ts" by simp
    have g1: "j = 0 \<longrightarrow> tag_next (ts' ! j) = - 1 \<and> tag_dist (ts' ! j) = 0"
      using o(1) same by auto
    have g2: "0 < j \<longrightarrow> 0 \<le> tag_next (ts' ! j) \<and> tag_next (ts' ! j) < int j \<and>
                   tag_dist (ts' ! j) = tag_dist (?ts ! nat (tag_next (ts' ! j))) + 1"
      using p o(2) same by auto
    have g3: "tag_cut (ts' ! j) \<longrightarrow> j + 3 < length ?ts"
    proof
      assume "tag_cut (ts' ! j)"
      with c o(3) have "j + 2 < length ts" by auto
      then show "j + 3 < length ?ts" using len by simp
    qed
    show ?thesis unfolding e using g1 g2 g3 by blast
  next
    case False
    with j len have jl: "j = length ts" by simp
    then have e: "?ts ! j = ?new" by (simp add: nth_append len)
    from nx have "nat nx < length ts" by linarith
    with le have "tag_dist (?ts ! nat nx) = tag_dist (ts ! nat nx)"
      by (simp add: nth_append len tags_le_def)
    with e jl nx d ne show ?thesis by simp
  qed
qed

lemma onAddPoint_ready:
  assumes rdy: "ready s"
  shows "\<exists>s'. onAddPoint s p = Some s' \<and> path s' = path s \<and> fitter s' = fitter s \<and>
           thresholdSq s' = thresholdSq s \<and> pathLength s' = Suc (pathLength s) \<and>
           tags_ok (tags s') \<and> grows s s'"
proof -
  let ?j = "pathLength s"
  from rdy have len: "length (tags s) = ?j" and jl: "?j < length (path s)"
    and cov: "sums_cover (fitter s) (Suc ?j)" and ok: "tags_ok (tags s)"
    by (auto simp: ready_def intro: sums_cover_mono)
  from fitLine_total[OF cov, of ?j] obtain l where
    l: "fitLine (fitter s) (int ?j) (int ?j) = Some l" by auto
  from offer_new[of p] obtain hl where
    off: "offer SimplePathHull_new p = Some (Some 0, hl)" and hok: "hull_ok hl"
    and hlen: "0 < length (hull_nodes hl)" by blast
  show ?thesis
  proof (cases "?j = 0")
    case True
    let ?s' = "s\<lparr>trace := [Accept], pathLength := ?j + 1,
                 tags := tags s @ [\<lparr>tag_dist = 0, tag_next = - 1, tag_cut = False\<rparr>]\<rparr>"
    have "onAddPoint s p = Some ?s'"
      using True l off by (simp add: onAddPoint_def Let_def)
    moreover have "tags_ok (tags ?s')" using True len by (simp add: tags_ok_def)
    moreover have "grows s ?s'" using True len by (simp add: grows_def tags_le_def)
    ultimately show ?thesis by simp
  next
    case False
    let ?st = "\<lparr>sc_tags = tags s, sc_errorBox = ErrorBox_new l p, sc_hull = hl,
                sc_next = int ?j - 1, sc_dist = tag_dist (tags s ! (?j - 1)), sc_trace = [Accept]\<rparr>"
    have tn: "nth_opt (tags s) (int ?j - 1) = Some (tags s ! (?j - 1))"
      using False len by (simp add: nth_opt_def nat_diff_distrib)
    from scan_total[of ?j ?j "path s" ?st "fitter s" 0 "thresholdSq s" p] jl len cov hok hlen
    obtain st' where sc: "scan (path s) (fitter s) (thresholdSq s) ?j p (Some 0) ?j ?st = Some st'"
      by auto
    from scan_facts[OF sc] len have post: "scan_post ?j ?j ?st st'" by simp
    let ?new = "\<lparr>tag_dist = sc_dist st' + 1, tag_next = sc_next st', tag_cut = False\<rparr>"
    let ?s' = "s\<lparr>trace := sc_trace st', pathLength := ?j + 1, tags := sc_tags st' @ [?new]\<rparr>"
    have eq: "onAddPoint s p = Some ?s'"
      using False l off tn sc by (simp add: onAddPoint_def Let_def)
    from post have le: "tags_le (tags s) (sc_tags st')"
      and nx: "(sc_next st' = int ?j - 1 \<and> sc_dist st' = tag_dist (tags s ! (?j - 1))) \<or>
        (0 \<le> sc_next st' \<and> sc_next st' < int ?j \<and>
         sc_dist st' = tag_dist (tags s ! nat (sc_next st')) \<and>
         (\<forall>i < ?j. tag_cut (tags s ! i) \<longrightarrow> int i < sc_next st'))"
      and nc: "\<forall>k < length (tags s). tag_cut (sc_tags st' ! k) \<longrightarrow>
         tag_cut (tags s ! k) \<or> (k + 2 < ?j \<and> k < ?j)"
      and tr: "\<forall>i < ?j. tag_cut (tags s ! i) \<longrightarrow>
        length (sc_trace st') \<le> 1 + (?j - i) \<and>
        (length (sc_trace st') = 1 + (?j - i) \<longrightarrow> last (sc_trace st') = Cut)"
      by (simp_all add: scan_post_def)
    have cut3: "\<And>i. i < ?j \<Longrightarrow> tag_cut (tags s ! i) \<Longrightarrow> i + 3 < ?j"
      using ok len by (simp add: tags_ok_def)
    have nat1: "nat (int ?j - 1) = ?j - 1" by simp
    have nxb: "0 \<le> sc_next st' \<and> sc_next st' < int ?j \<and> sc_dist st' = tag_dist (tags s ! nat (sc_next st'))"
      using nx False nat1 by auto
    have nxc: "\<And>i. i < ?j \<Longrightarrow> tag_cut (tags s ! i) \<Longrightarrow> int i < sc_next st'"
      using nx cut3 by fastforce
    have tne: "tags s \<noteq> []" using False len by auto
    have tok: "tags_ok (sc_tags st' @ [?new])"
      using nc nxb len by (intro tags_ok_snoc[OF ok le _ _ _ _ tne]) auto
    have gr: "grows s ?s'"
      using le len nxc tr by (simp add: grows_def tags_le_def)
    from eq tok gr show ?thesis by simp
  qed
qed

lemma grows_path_fitter:
  "grows (s\<lparr>path := pth, fitter := f\<rparr>) s' = grows s s'"
  by (simp add: grows_def)

lemma Path_addPoint_attached:
  assumes att: "attached s"
  shows "\<exists>s'. Path_addPoint s p = Some s' \<and> attached s' \<and> path s' = path s @ [p] \<and>
           thresholdSq s' = thresholdSq s \<and> grows s s'"
proof -
  from att have pl: "pathLength s = length (path s)" and tl: "length (tags s) = length (path s)"
    and fo: "fitter_of (fitter s) (path s)" and ok: "tags_ok (tags s)"
    by (simp_all add: attached_def)
  from fitter_of_onAddPoint[OF fo, of p] obtain f' where
    f': "LineFitter_onAddPoint (fitter s) p = Some f'" and fo': "fitter_of f' (path s @ [p])"
    by blast
  let ?s2 = "s\<lparr>path := path s @ [p], fitter := f'\<rparr>"
  have "ready ?s2" using pl tl ok fitter_of_cover[OF fo'] by (simp add: ready_def)
  from onAddPoint_ready[OF this, of p] obtain s' where
    s': "onAddPoint ?s2 p = Some s'" "path s' = path ?s2" "fitter s' = fitter ?s2"
        "thresholdSq s' = thresholdSq ?s2" "pathLength s' = Suc (pathLength ?s2)"
        "tags_ok (tags s')" "grows ?s2 s'"
    by blast
  have "Path_addPoint s p = Some s'" using f' s'(1) by (simp add: Path_addPoint_def)
  moreover have "grows s s'" using s'(7) by (simp add: grows_path_fitter)
  moreover from this have "length (tags s') = Suc (length (tags s))" by (simp add: grows_def)
  then have "attached s'" using s' pl tl fo' by (simp add: attached_def)
  ultimately show ?thesis using s' by simp
qed

lemma attached_new: "\<exists>s. PathSimplifier_new [] thr = Some s \<and> attached s \<and> path s = [] \<and>
    thresholdSq s = thr * thr"
  by (simp add: PathSimplifier_new_def LineFitter_new_def onClear_def attached_def
        fitter_of_onClear tags_ok_def)

lemma addPoints_attached:
  "attached s \<Longrightarrow> \<exists>s'. addPoints s ps = Some s' \<and> attached s' \<and> path s' = path s @ ps \<and>
      thresholdSq s' = thresholdSq s"
proof (induction ps arbitrary: s)
  case Nil
  then show ?case by simp
next
  case (Cons p ps)
  from Path_addPoint_attached[OF Cons.prems, of p] obtain s1 where
    s1: "Path_addPoint s p = Some s1" "attached s1" "path s1 = path s @ [p]"
        "thresholdSq s1 = thresholdSq s" by blast
  from Cons.IH[OF s1(2)] obtain s' where
    "addPoints s1 ps = Some s'" "attached s'" "path s' = path s1 @ ps"
    "thresholdSq s' = thresholdSq s1" by blast
  with s1 show ?case by simp
qed

lemma appended_attached:
  "\<exists>s. appended thr ps = Some s \<and> attached s \<and> path s = ps \<and> thresholdSq s = thr * thr"
proof -
  from attached_new[of thr] obtain s0 where
    s0: "PathSimplifier_new [] thr = Some s0" "attached s0" "path s0 = []"
        "thresholdSq s0 = thr * thr" by blast
  from addPoints_attached[OF s0(2), of ps] s0 show ?thesis by (simp add: appended_def)
qed

lemma replay_ready:
  "length (tags s) = pathLength s \<Longrightarrow> pathLength s + length qs \<le> length (path s) \<Longrightarrow>
   sums_cover (fitter s) (length (path s)) \<Longrightarrow> tags_ok (tags s) \<Longrightarrow>
   \<exists>s'. replay s qs = Some s' \<and> thresholdSq s' = thresholdSq s \<and> path s' = path s \<and>
        pathLength s' = pathLength s + length qs \<and> length (tags s') = pathLength s' \<and>
        tags_ok (tags s')"
proof (induction qs arbitrary: s)
  case Nil
  then show ?case by simp
next
  case (Cons q qs)
  then have "ready s" by (simp add: ready_def)
  from onAddPoint_ready[OF this, of q] obtain s1 where
    s1: "onAddPoint s q = Some s1" "path s1 = path s" "fitter s1 = fitter s"
        "thresholdSq s1 = thresholdSq s" "pathLength s1 = Suc (pathLength s)"
        "tags_ok (tags s1)" "grows s s1" by blast
  from s1(7) Cons.prems(1) s1(5) have l1: "length (tags s1) = pathLength s1"
    by (simp add: grows_def)
  from Cons.IH[OF l1 _ _ s1(6)] Cons.prems s1 obtain s' where
    "replay s1 qs = Some s'" "thresholdSq s' = thresholdSq s1" "path s' = path s1"
    "pathLength s' = pathLength s1 + length qs" "length (tags s') = pathLength s'"
    "tags_ok (tags s')" by auto
  with s1 show ?case by simp
qed

lemma PathSimplifier_new_total:
  "\<exists>s. PathSimplifier_new pth threshold = Some s \<and> thresholdSq s = threshold * threshold \<and>
       path s = pth \<and> pathLength s = length pth \<and> length (tags s) = length pth"
proof -
  from LineFitter_new_of[of pth] obtain f where f: "LineFitter_new pth = Some f" "fitter_of f pth"
    by blast
  let ?s0 = "onClear \<lparr>path = pth, pathLength = 0, fitter = f, tags = [],
                      thresholdSq = threshold * threshold, trace = []\<rparr>"
  have "\<exists>s'. replay ?s0 pth = Some s' \<and> thresholdSq s' = thresholdSq ?s0 \<and> path s' = path ?s0 \<and>
        pathLength s' = pathLength ?s0 + length pth \<and> length (tags s') = pathLength s' \<and>
        tags_ok (tags s')"
    using fitter_of_cover[OF f(2)]
    by (intro replay_ready) (simp_all add: onClear_def tags_ok_def)
  with f(1) show ?thesis by (auto simp: PathSimplifier_new_def onClear_def)
qed

subsection \<open>The route through the tag table\<close>

text \<open>
  The predecessor of a tag is a smaller index and its distance is one less, so the walk of
  \<open>getSimplified\<close> ends at index 0.
\<close>

lemma tags_ok_next:
  "tags_ok ts \<Longrightarrow> 0 < j \<Longrightarrow> j < length ts \<Longrightarrow>
     0 \<le> tag_next (ts ! j) \<and> tag_next (ts ! j) < int j \<and>
     tag_dist (ts ! j) = tag_dist (ts ! nat (tag_next (ts ! j))) + 1"
  by (simp add: tags_ok_def)

lemma tags_ok_zero:
  "tags_ok ts \<Longrightarrow> 0 < length ts \<Longrightarrow> tag_next (ts ! 0) = - 1 \<and> tag_dist (ts ! 0) = 0"
  unfolding tags_ok_def by blast

lemma tags_ok_dist:
  assumes ok: "tags_ok ts"
  shows "j < length ts \<Longrightarrow> 0 \<le> tag_dist (ts ! j) \<and> tag_dist (ts ! j) \<le> int j"
proof (induction j rule: less_induct)
  case (less j)
  show ?case
  proof (cases "j = 0")
    case True
    with tags_ok_zero[OF ok] less.prems show ?thesis by simp
  next
    case False
    with tags_ok_next[OF ok _ less.prems] have
      nx: "0 \<le> tag_next (ts ! j)" "tag_next (ts ! j) < int j"
      and d: "tag_dist (ts ! j) = tag_dist (ts ! nat (tag_next (ts ! j))) + 1" by simp_all
    from nx less.prems have "nat (tag_next (ts ! j)) < j" "nat (tag_next (ts ! j)) < length ts"
      by linarith+
    from less.IH[OF this] d nx show ?thesis by linarith
  qed
qed

lemma walk_route_attached:
  assumes att: "attached s"
  shows "i < length (path s) \<Longrightarrow>
    \<exists>line' result'. walk_route s (int i) line result = Some (line', result') \<and>
       length result' = length result + nat (tag_dist (tags s ! i)) \<and>
       take (length result) result' = result \<and>
       (i = 0 \<longrightarrow> line' = line) \<and>
       (0 < i \<longrightarrow> (\<exists>k m. k = (route_pred s ^^ m) i \<and> 0 < k \<and> tag_next (tags s ! k) = 0 \<and>
                          fitLine (fitter s) 0 (int k) = Some line'))"
proof (induction i arbitrary: line result rule: less_induct)
  case (less i)
  from att have tl: "length (tags s) = length (path s)"
    and fo: "fitter_of (fitter s) (path s)" and ok: "tags_ok (tags s)"
    by (simp_all add: attached_def)
  show ?case
  proof (cases "i = 0")
    case True
    have "walk_route s (int i) line result = Some (line, result)"
      using True by (subst walk_route.simps) simp
    moreover have "tag_dist (tags s ! i) = 0" using True tags_ok_zero[OF ok] less.prems tl by simp
    ultimately show ?thesis using True by simp
  next
    case False
    let ?tj = "tags s ! i"
    let ?i' = "nat (tag_next ?tj)"
    from tags_ok_next[OF ok _ ] False less.prems tl have
      nx: "0 \<le> tag_next ?tj" "tag_next ?tj < int i"
      and d: "tag_dist ?tj = tag_dist (tags s ! ?i') + 1" by simp_all
    from nx have i'lt: "?i' < i" and i'eq: "int ?i' = tag_next ?tj" by linarith+
    with less.prems have i'len: "?i' < length (path s)" by simp
    have cov: "sums_cover (fitter s) (Suc i)"
      using fitter_of_cover[OF fo] less.prems by (auto intro: sums_cover_mono)
    from fitLine_total[OF cov, of ?i'] i'lt i'eq obtain l1 where
      l1: "fitLine (fitter s) (tag_next ?tj) (int i) = Some l1" by auto
    let ?v = "case intersection l1 line of None \<Rightarrow> path s ! i
              | Some p \<Rightarrow> if distSq p (path s ! i) > 4 * thresholdSq s then path s ! i else p"
    from less.IH[OF i'lt i'len, of l1 "result @ [?v]"] obtain line' result' where
      w: "walk_route s (int ?i') l1 (result @ [?v]) = Some (line', result')"
      and len: "length result' = length (result @ [?v]) + nat (tag_dist (tags s ! ?i'))"
      and tk: "take (length (result @ [?v])) result' = result @ [?v]"
      and l0: "?i' = 0 \<longrightarrow> line' = l1"
      and lk: "0 < ?i' \<longrightarrow> (\<exists>k m. k = (route_pred s ^^ m) ?i' \<and> 0 < k \<and>
                 tag_next (tags s ! k) = 0 \<and> fitLine (fitter s) 0 (int k) = Some line')"
      by (elim exE conjE) (rule that; assumption)
    have unf: "walk_route s (int i) line result = walk_route s (tag_next ?tj) l1 (result @ [?v])"
      using False less.prems tl l1 by (subst walk_route.simps) simp
    have e1: "walk_route s (int i) line result = Some (line', result')"
      using unf w i'eq by simp
    from tags_ok_dist[OF ok, of ?i'] i'len tl have "0 \<le> tag_dist (tags s ! ?i')" by simp
    with d len have e2: "length result' = length result + nat (tag_dist ?tj)" by simp
    have e3: "take (length result) result' = result"
    proof -
      have "take (length result) (take (length (result @ [?v])) result') = take (length result) result'"
        by (simp add: min_def)
      with tk show ?thesis by simp
    qed
    have e4: "\<exists>k m. k = (route_pred s ^^ m) i \<and> 0 < k \<and> tag_next (tags s ! k) = 0 \<and>
                 fitLine (fitter s) 0 (int k) = Some line'"
    proof (cases "?i' = 0")
      case True
      with l0 l1 i'eq have "fitLine (fitter s) 0 (int i) = Some line'" "tag_next ?tj = 0" by simp_all
      with False show ?thesis by (intro exI[of _ i] exI[of _ 0]) simp
    next
      case False
      with lk obtain k m where km: "k = (route_pred s ^^ m) ?i'" "0 < k" "tag_next (tags s ! k) = 0"
        "fitLine (fitter s) 0 (int k) = Some line'" by blast
      have "(route_pred s ^^ Suc m) i = (route_pred s ^^ m) ?i'"
        by (simp add: funpow_swap1 route_pred_def)
      with km show ?thesis by (intro exI[of _ k] exI[of _ "Suc m"]) simp
    qed
    from e1 e2 e3 e4 False show ?thesis by simp
  qed
qed

lemma route_reaches_start:
  assumes ok: "tags_ok (tags s)"
  shows "j < length (tags s) \<Longrightarrow> (route_pred s ^^ nat (tag_dist (tags s ! j))) j = 0"
proof (induction j rule: less_induct)
  case (less j)
  show ?case
  proof (cases "j = 0")
    case True
    with tags_ok_zero[OF ok] less.prems show ?thesis by simp
  next
    case False
    let ?j' = "route_pred s j"
    from tags_ok_next[OF ok _ less.prems] False have
      nx: "0 \<le> tag_next (tags s ! j)" "tag_next (tags s ! j) < int j"
      and d: "tag_dist (tags s ! j) = tag_dist (tags s ! ?j') + 1"
      by (simp_all add: route_pred_def)
    from nx less.prems have lt: "?j' < j" "?j' < length (tags s)"
      unfolding route_pred_def by linarith+
    from tags_ok_dist[OF ok lt(2)] have d0: "0 \<le> tag_dist (tags s ! ?j')" by simp
    with d have "nat (tag_dist (tags s ! j)) = Suc (nat (tag_dist (tags s ! ?j')))" by simp
    then have "(route_pred s ^^ nat (tag_dist (tags s ! j))) j
        = (route_pred s ^^ nat (tag_dist (tags s ! ?j'))) ?j'"
      by (simp add: funpow_swap1)
    with less.IH[OF lt] show ?thesis by simp
  qed
qed

lemma getSimplified_short:
  "pathLength s \<le> 1 \<Longrightarrow> getSimplified s = Some (path s)"
  by (simp add: getSimplified_def)

lemma getSimplified_attached:
  assumes att: "attached s" and n2: "2 \<le> length (path s)"
  shows "\<exists>out lf ll k m. getSimplified s = Some out \<and>
     fitLine (fitter s) (tag_next (tags s ! (length (path s) - 1))) (int (length (path s) - 1)) = Some lf \<and>
     hd out = project (last (path s)) lf \<and>
     k = (route_pred s ^^ m) (length (path s) - 1) \<and> 0 < k \<and> tag_next (tags s ! k) = 0 \<and>
     fitLine (fitter s) 0 (int k) = Some ll \<and>
     last out = project (hd (path s)) ll \<and>
     length out = nat (tag_dist (tags s ! (length (path s) - 1))) + 1"
proof -
  let ?n = "length (path s)"
  let ?j = "?n - 1"
  from att have pl: "pathLength s = ?n" and tl: "length (tags s) = ?n"
    and fo: "fitter_of (fitter s) (path s)" and ok: "tags_ok (tags s)"
    by (simp_all add: attached_def)
  from n2 have j0: "0 < ?j" and jl: "?j < ?n" by simp_all
  let ?tj = "tags s ! ?j"
  let ?i = "nat (tag_next ?tj)"
  from tags_ok_next[OF ok j0] jl tl have
    nx: "0 \<le> tag_next ?tj" "tag_next ?tj < int ?j"
    and d: "tag_dist ?tj = tag_dist (tags s ! ?i) + 1" by simp_all
  from nx have ilt: "?i < ?j" and ieq: "int ?i = tag_next ?tj" by linarith+
  with jl have il: "?i < ?n" by simp
  have cov: "sums_cover (fitter s) (Suc ?j)"
    using fitter_of_cover[OF fo] jl by (auto intro: sums_cover_mono)
  from fitLine_total[OF cov, of ?i] ilt ieq obtain lf where
    lf: "fitLine (fitter s) (tag_next ?tj) (int ?j) = Some lf" by auto
  let ?pj = "path s ! ?j"
  from walk_route_attached[OF att il, of lf "[project ?pj lf]"] obtain line' result' where
    w: "walk_route s (int ?i) lf [project ?pj lf] = Some (line', result')"
    and len: "length result' = length [project ?pj lf] + nat (tag_dist (tags s ! ?i))"
    and tk: "take (length [project ?pj lf]) result' = [project ?pj lf]"
    and l0: "?i = 0 \<longrightarrow> line' = lf"
    and lk: "0 < ?i \<longrightarrow> (\<exists>k m. k = (route_pred s ^^ m) ?i \<and> 0 < k \<and>
               tag_next (tags s ! k) = 0 \<and> fitLine (fitter s) 0 (int k) = Some line')"
    by (elim exE conjE) (rule that; assumption)
  let ?out = "result' @ [project (path s ! 0) line']"
  have int1: "int (pathLength s) - 1 = int ?j" using pl n2 by simp
  have r0: "\<not> pathLength s \<le> 1" using pl n2 by simp
  have r1: "nth_opt (tags s) (int (pathLength s) - 1) = Some ?tj"
    unfolding pl using tl n2 by (intro nth_opt_pred) auto
  have r2: "nth_opt (path s) (int (pathLength s) - 1) = Some ?pj"
    unfolding pl using n2 by (intro nth_opt_pred) auto
  have r3: "nth_opt (path s) 0 = Some (path s ! 0)" using n2 by (auto simp: nth_opt_def)
  have r4: "fitLine (fitter s) (tag_next ?tj) (int (pathLength s) - 1) = Some lf"
    unfolding int1 using lf .
  have r5: "walk_route s (tag_next ?tj) lf [project ?pj lf] = Some (line', result')"
    using w ieq by simp
  have eq: "getSimplified s = Some ?out"
    unfolding getSimplified_def
    by (simp only: r0 if_False r1 r2 r3 r4 r5 Option.bind.bind_lunit prod.case)
  have rne: "result' \<noteq> []" using len by auto
  from tk have "hd result' = project ?pj lf" by (cases result') simp_all
  moreover have "last (path s) = ?pj" using n2 by (cases "path s" rule: rev_cases) simp_all
  ultimately have e1: "hd ?out = project (last (path s)) lf" using rne by simp
  have "hd (path s) = path s ! 0" using n2 by (cases "path s") simp_all
  then have e2: "last ?out = project (hd (path s)) line'" by simp
  from tags_ok_dist[OF ok, of ?i] il tl have "0 \<le> tag_dist (tags s ! ?i)" by simp
  with d len have e3: "length ?out = nat (tag_dist ?tj) + 1" by (simp add: nat_add_distrib)
  have e4: "\<exists>k m. k = (route_pred s ^^ m) ?j \<and> 0 < k \<and> tag_next (tags s ! k) = 0 \<and>
               fitLine (fitter s) 0 (int k) = Some line'"
  proof (cases "?i = 0")
    case True
    with ieq have z: "tag_next ?tj = 0" by linarith
    with l0 lf True have "fitLine (fitter s) 0 (int ?j) = Some line'" by simp
    with j0 z show ?thesis by (intro exI[of _ ?j] exI[of _ 0]) simp
  next
    case False
    with lk obtain k m where km: "k = (route_pred s ^^ m) ?i" "0 < k" "tag_next (tags s ! k) = 0"
      "fitLine (fitter s) 0 (int k) = Some line'" by blast
    have "(route_pred s ^^ Suc m) ?j = (route_pred s ^^ m) ?i"
      by (simp add: funpow_swap1 route_pred_def)
    with km show ?thesis by (intro exI[of _ k] exI[of _ "Suc m"]) simp
  qed
  from eq lf e1 e2 e3 e4 show ?thesis by blast
qed

lemma getSimplified_total:
  assumes att: "attached s"
  shows "\<exists>out. getSimplified s = Some out \<and>
           (path s \<noteq> [] \<longrightarrow> length out = nat (tag_dist (tags s ! (length (path s) - 1))) + 1)"
proof (cases "2 \<le> length (path s)")
  case True
  from getSimplified_attached[OF att True] show ?thesis by auto
next
  case False
  from att have pl: "pathLength s = length (path s)" and tl: "length (tags s) = length (path s)"
    and ok: "tags_ok (tags s)" by (simp_all add: attached_def)
  from False pl have "getSimplified s = Some (path s)" by (simp add: getSimplified_short)
  moreover have "path s \<noteq> [] \<longrightarrow> length (path s) = nat (tag_dist (tags s ! (length (path s) - 1))) + 1"
  proof
    assume "path s \<noteq> []"
    then have "0 < length (path s)" by simp
    with False have l1: "length (path s) = 1" by linarith
    with tags_ok_zero[OF ok] tl show "length (path s) = nat (tag_dist (tags s ! (length (path s) - 1))) + 1"
      by simp
  qed
  ultimately show ?thesis by simp
qed

subsection \<open>Projections\<close>




subsection \<open>Later appends\<close>

text \<open>A cut flag, once set, stays, and keeps every later scan above its index.\<close>

lemma addPoints_tags:
  "attached s \<Longrightarrow> addPoints s qs = Some s' \<Longrightarrow>
     attached s' \<and> length (tags s') = length (tags s) + length qs \<and>
     tags_le (tags s) (take (length (tags s)) (tags s'))"
proof (induction qs arbitrary: s)
  case Nil
  then show ?case by (simp add: tags_le_refl)
next
  case (Cons q qs)
  from Path_addPoint_attached[OF Cons.prems(1), of q] obtain s1 where
    s1: "Path_addPoint s q = Some s1" "attached s1" "grows s s1" by blast
  with Cons.prems(2) have rest: "addPoints s1 qs = Some s'" by simp
  from Cons.IH[OF s1(2) rest] have ih: "attached s'"
    "length (tags s') = length (tags s1) + length qs"
    "tags_le (tags s1) (take (length (tags s1)) (tags s'))" by simp_all
  from s1(3) have l1: "length (tags s1) = Suc (length (tags s))"
    and le1: "tags_le (tags s) (butlast (tags s1))" by (simp_all add: grows_def)
  have "tags_le (tags s) (take (length (tags s)) (tags s'))"
    unfolding tags_le_def
  proof (intro conjI allI impI)
    show "length (take (length (tags s)) (tags s')) = length (tags s)" using ih(2) l1 by simp
  next
    fix k assume k: "k < length (tags s)"
    then have k1: "k < length (tags s1)" using l1 by simp
    have a: "take (length (tags s)) (tags s') ! k = tags s' ! k" using k by simp
    have b: "take (length (tags s1)) (tags s') ! k = tags s' ! k" using k1 by simp
    have c: "butlast (tags s1) ! k = tags s1 ! k" using k l1 by (simp add: nth_butlast)
    from tags_le_nth[OF le1 k] have d: "tag_dist (tags s1 ! k) = tag_dist (tags s ! k)"
      "tag_next (tags s1 ! k) = tag_next (tags s ! k)"
      "tag_cut (tags s ! k) \<longrightarrow> tag_cut (tags s1 ! k)" unfolding c by simp_all
    from tags_le_nth[OF ih(3) k1] have e: "tag_dist (tags s' ! k) = tag_dist (tags s1 ! k)"
      "tag_next (tags s' ! k) = tag_next (tags s1 ! k)"
      "tag_cut (tags s1 ! k) \<longrightarrow> tag_cut (tags s' ! k)" unfolding b by simp_all
    from a d e show "tag_dist (take (length (tags s)) (tags s') ! k) = tag_dist (tags s ! k)" by simp
    from a d e show "tag_next (take (length (tags s)) (tags s') ! k) = tag_next (tags s ! k)" by simp
    assume "tag_cut (tags s ! k)"
    with a d e show "tag_cut (take (length (tags s)) (tags s') ! k)" by simp
  qed
  with ih l1 show ?case by simp
qed

lemma addPoints_cut_kept:
  "attached s \<Longrightarrow> i < length (tags s) \<Longrightarrow> tag_cut (tags s ! i) \<Longrightarrow> addPoints s qs = Some s' \<Longrightarrow>
     tag_cut (tags s' ! i) \<and>
     (\<forall>j. length (tags s) \<le> j \<and> j < length (tags s') \<longrightarrow> int i < tag_next (tags s' ! j)) \<and>
     (qs \<noteq> [] \<longrightarrow> length (trace s') \<le> length (tags s') - i \<and>
        (length (trace s') = length (tags s') - i \<longrightarrow> last (trace s') = Cut))"
proof (induction qs arbitrary: s)
  case Nil
  then show ?case by simp
next
  case (Cons q qs)
  from Path_addPoint_attached[OF Cons.prems(1), of q] obtain s1 where
    s1: "Path_addPoint s q = Some s1" "attached s1" "grows s s1" by blast
  with Cons.prems(4) have rest: "addPoints s1 qs = Some s'" by simp
  from s1(3) Cons.prems(2,3) have l1: "length (tags s1) = Suc (length (tags s))"
    and le1: "tags_le (tags s) (butlast (tags s1))"
    and nx1: "int i < tag_next (last (tags s1))"
    and tr1: "length (trace s1) \<le> Suc (length (tags s) - i)"
      "length (trace s1) = Suc (length (tags s) - i) \<longrightarrow> last (trace s1) = Cut"
    by (simp_all add: grows_def)
  have i1: "i < length (tags s1)" using Cons.prems(2) l1 by simp
  have "butlast (tags s1) ! i = tags s1 ! i" using Cons.prems(2) l1 by (simp add: nth_butlast)
  with tags_le_nth[OF le1 Cons.prems(2)] Cons.prems(3) have c1: "tag_cut (tags s1 ! i)" by simp
  from Cons.IH[OF s1(2) i1 c1 rest] have ih:
    "tag_cut (tags s' ! i)"
    "\<forall>j. length (tags s1) \<le> j \<and> j < length (tags s') \<longrightarrow> int i < tag_next (tags s' ! j)"
    "qs \<noteq> [] \<longrightarrow> length (trace s') \<le> length (tags s') - i \<and>
        (length (trace s') = length (tags s') - i \<longrightarrow> last (trace s') = Cut)"
    by simp_all
  from addPoints_tags[OF s1(2) rest] have keep: "tags_le (tags s1) (take (length (tags s1)) (tags s'))"
    and len': "length (tags s') = length (tags s1) + length qs" by simp_all
  have last1: "last (tags s1) = tags s1 ! length (tags s)"
    using l1 by (cases "tags s1" rule: rev_cases) (simp_all add: nth_append)
  have "tag_next (tags s' ! length (tags s)) = tag_next (tags s1 ! length (tags s))"
    using tags_le_nth[OF keep, of "length (tags s)"] l1 by simp
  with nx1 last1 have first: "int i < tag_next (tags s' ! length (tags s))" by simp
  have a: "\<forall>j. length (tags s) \<le> j \<and> j < length (tags s') \<longrightarrow> int i < tag_next (tags s' ! j)"
  proof (intro allI impI)
    fix j assume j: "length (tags s) \<le> j \<and> j < length (tags s')"
    show "int i < tag_next (tags s' ! j)"
    proof (cases "j = length (tags s)")
      case True
      with first show ?thesis by simp
    next
      case False
      with j l1 have "length (tags s1) \<le> j \<and> j < length (tags s')" by simp
      with ih(2) show ?thesis by blast
    qed
  qed
  have b: "length (trace s') \<le> length (tags s') - i \<and>
        (length (trace s') = length (tags s') - i \<longrightarrow> last (trace s') = Cut)"
  proof (cases "qs = []")
    case True
    with rest have "s' = s1" by simp
    moreover have "Suc (length (tags s) - i) = length (tags s1) - i"
      using l1 Cons.prems(2) by simp
    ultimately show ?thesis using tr1 by simp
  next
    case False
    with ih(3) show ?thesis by simp
  qed
  from ih(1) a b show ?case by simp
qed

subsection \<open>The error box\<close>

lemma sq_le_max_ends:
  fixes t :: real
  assumes "lo \<le> t" and "t \<le> hi"
  shows "t * t \<le> max (lo * lo) (hi * hi)"
proof (cases "0 \<le> t")
  case True
  with assms have "t * t \<le> hi * hi" by (intro mult_mono) simp_all
  then show ?thesis by simp
next
  case False
  with assms have "(- t) * (- t) \<le> (- lo) * (- lo)" by (intro mult_mono) simp_all
  then show ?thesis by simp
qed

lemma min5_le: "min5 a b c d e \<le> a" "min5 a b c d e \<le> b" "min5 a b c d e \<le> c"
  "min5 a b c d e \<le> d" "min5 a b c d e \<le> e"
  by (simp_all add: min5_def)

lemma max5_ge: "a \<le> max5 a b c d e" "b \<le> max5 a b c d e" "c \<le> max5 a b c d e"
  "d \<le> max5 a b c d e" "e \<le> max5 a b c d e"
  by (simp_all add: max5_def)

subsection \<open>Evaluating the program on concrete inputs\<close>

text \<open>
  The simplifier evaluates the program text step by step: the two congruence rules
  \<open>bind_eval_cong\<close> and \<open>let_eval_cong\<close> keep it from rewriting the continuation of a bind
  or the body of a let before the bound value is known, so that only the branch taken is
  ever unfolded.
\<close>

lemmas eval_defs = nth_opt_def EPSILON_def magSq_def sub_def per_def span_vec_def distSq_def dot_def
  side_def intersect_def origin_def tangent_def normal_def map_line_def unmapc_def unmap_def
  remapc_def remap_def project_def intersection_def LineFitter_onClear_def
  LineFitter_onAddPoint_def rangeSum_def fitLine_static_def fitLine_def get_node_def
  SimplePathHull_new_def makeNode_def offer_links_def offer_def ErrorBox_new_def min5_def
  max5_def ErrorBox_extend_def ErrorBox_error_def isPioneer_def scan_body_def onAddPoint_def
  onClear_def Path_addPoint_def LineFitter_new_def PathSimplifier_new_def appended_def
  getSimplified_def Let_def

lemmas example_defs = pt_def tag_def hnode_def sums_of_def run_state_def upt_rec

lemma scan_unfold:
  "0 < n \<Longrightarrow> scan pth ftr thrSq j pj nj n st = do {
     r \<leftarrow> scan_body pth ftr thrSq j pj nj (n - 1) st;
     case r of Break st' \<Rightarrow> Some st'
     | Continue st' \<Rightarrow> scan pth ftr thrSq j pj nj (n - 1) st'
   }"
  by (cases n) simp_all

lemma new_run: "PathSimplifier_new [] thr = Some (run_state [] (thr * thr) [] [])"
  by (simp add: eval_defs example_defs)

lemma collinear3_run: "appended 1 collinear3 = Some collinear3_final"
  by (simp add: eval_defs example_defs collinear3_def collinear3_final_def scan_unfold
           cong: bind_eval_cong let_eval_cong)

lemma collinear3_simplified:
  "getSimplified collinear3_final = Some [pt 10 0, pt 0 0]"
  by (simp add: eval_defs example_defs collinear3_def collinear3_final_def walk_route.simps
           cong: bind_eval_cong let_eval_cong)

lemma crossing4_run: "appended 100 crossing4 = Some crossing4_final"
  by (simp add: eval_defs example_defs crossing4_def crossing4_final_def scan_unfold
           seek_n0.simps seek_n1.simps evict.simps
           cong: bind_eval_cong let_eval_cong)

lemma crossing5_run: "addPoints crossing4_final [pt 1 (- 2)] = Some crossing5_final"
  by (simp add: eval_defs example_defs crossing4_def crossing4_final_def crossing5_final_def scan_unfold
           seek_n0.simps seek_n1.simps evict.simps
           cong: bind_eval_cong let_eval_cong)






lemmas shrink_defs = shrink_path_def shrink_tags_def shrink_before_def shrink_st0_def
  shrink_st1_def shrink_st2_def shrink_st3_def shrink_hull3_def

lemma shrink_prefix_run:
  "appended 10 (take 3 shrink_path) = Some (run_state (take 3 shrink_path) 100 shrink_tags [Accept, Accept, Pioneer_weak])"
  by (simp add: eval_defs example_defs shrink_defs scan_unfold
           seek_n0.simps seek_n1.simps evict.simps
           cong: bind_eval_cong let_eval_cong)

lemma shrink_scan_start:
  "fitLine (fitter shrink_before) 3 3 = Some \<lparr>la = - 1, lb = - 1, lc = 0\<rparr> \<and>
   ErrorBox_new \<lparr>la = - 1, lb = - 1, lc = 0\<rparr> (pt 0 0) = sc_errorBox shrink_st0 \<and>
   offer SimplePathHull_new (pt 0 0) = Some (Some 0, sc_hull shrink_st0)"
  by (simp add: eval_defs example_defs shrink_defs
           cong: bind_eval_cong let_eval_cong)

lemma shrink_step2:
  "scan_body shrink_path (sums_of shrink_path) 100 3 (pt 0 0) (Some 0) 2 shrink_st0
     = Some (Continue shrink_st1)"
  by (simp add: eval_defs example_defs shrink_defs
           seek_n0.simps seek_n1.simps evict.simps
           cong: bind_eval_cong let_eval_cong)

lemma shrink_step1:
  "scan_body shrink_path (sums_of shrink_path) 100 3 (pt 0 0) (Some 0) 1 shrink_st1
     = Some (Continue shrink_st2)"
  by (simp add: eval_defs example_defs shrink_defs
           seek_n0.simps seek_n1.simps evict.simps
           cong: bind_eval_cong let_eval_cong)

lemma shrink_step0:
  "scan_body shrink_path (sums_of shrink_path) 100 3 (pt 0 0) (Some 0) 0 shrink_st2
     = Some (Continue shrink_st3)"
  by (simp add: eval_defs example_defs shrink_defs
           seek_n0.simps seek_n1.simps evict.simps
           cong: bind_eval_cong let_eval_cong)

lemma shrink_errors:
  "ErrorBox_error (sc_errorBox shrink_st2) = 4 / 9 \<and>
   ErrorBox_error (sc_errorBox shrink_st3) = 441 / 1600"
  by (simp add: ErrorBox_error_def shrink_defs)

section \<open>Facts about binary64 arithmetic\<close>

subsection \<open>The binary exponent\<close>

text \<open>
  \<open>expo\<close> computes the integer part of the binary logarithm.
\<close>

lemma floor_log2_iff:
  assumes "0 < x"
  shows "\<lfloor>log 2 x\<rfloor> = k \<longleftrightarrow> 2 powi k \<le> x \<and> x < 2 powi (k + 1)"
proof -
  have a: "2 powr (real_of_int k) = 2 powi k"
    using powr_real_of_int'[of 2 k] by simp
  have "2 powr (real_of_int (k + 1)) = 2 powi (k + 1)"
    using powr_real_of_int'[of 2 "k + 1"] by simp
  then have b: "2 powr (real_of_int k + 1) = 2 powi (k + 1)" by (simp add: add.commute)
  have "\<lfloor>log 2 x\<rfloor> = k \<longleftrightarrow> 2 powr (real_of_int k) \<le> x \<and> x < 2 powr (real_of_int k + 1)"
    using floor_log_eq_powr_iff[OF assms, of 2 k] by simp
  then show ?thesis by (simp only: a b)
qed

lemma powi_nat: "0 \<le> k \<Longrightarrow> (2::real) powi k = 2 ^ nat k"
  by (simp add: power_int_def)

lemma powi_neg_nat: "0 \<le> k \<Longrightarrow> (2::real) powi (- k) = 1 / 2 ^ nat k"
  by (simp add: power_int_minus powi_nat inverse_eq_divide)

lemma expo_floor_log: assumes "x \<noteq> 0" shows "expo x = \<lfloor>log 2 \<bar>x\<bar>\<rfloor>"
proof (cases "1 \<le> \<bar>x\<bar>")
  case True
  then have pos: "0 < \<lfloor>\<bar>x\<bar>\<rfloor>" by linarith
  have "\<lfloor>log 2 (real_of_int \<lfloor>\<bar>x\<bar>\<rfloor>)\<rfloor> = \<lfloor>log 2 \<bar>x\<bar>\<rfloor>"
  proof -
    define k where "k = \<lfloor>log 2 \<bar>x\<bar>\<rfloor>"
    have ax: "0 < \<bar>x\<bar>" using assms by simp
    from True have "0 \<le> log 2 \<bar>x\<bar>" by simp
    then have k0: "0 \<le> k" by (simp add: k_def)
    have "2 powi k \<le> \<bar>x\<bar> \<and> \<bar>x\<bar> < 2 powi (k + 1)"
      using floor_log2_iff[OF ax, of k] by (simp add: k_def)
    then have b: "2 ^ nat k \<le> \<bar>x\<bar>" "\<bar>x\<bar> < 2 ^ nat (k + 1)"
      using k0 by (simp_all add: powi_nat)
    have "(of_int (2 ^ nat k) :: real) \<le> \<bar>x\<bar>" using b(1) by simp
    then have "(2::int) ^ nat k \<le> \<lfloor>\<bar>x\<bar>\<rfloor>" by (simp only: le_floor_iff)
    then have "(of_int (2 ^ nat k) :: real) \<le> of_int \<lfloor>\<bar>x\<bar>\<rfloor>" by (simp only: of_int_le_iff)
    then have l: "(2::real) ^ nat k \<le> of_int \<lfloor>\<bar>x\<bar>\<rfloor>" by simp
    have u: "of_int \<lfloor>\<bar>x\<bar>\<rfloor> < (2::real) ^ nat (k + 1)" using b(2) by linarith
    have "(2::real) powi k \<le> of_int \<lfloor>\<bar>x\<bar>\<rfloor> \<and> of_int \<lfloor>\<bar>x\<bar>\<rfloor> < (2::real) powi (k + 1)"
      using l u k0 by (simp add: powi_nat)
    then show ?thesis
      using floor_log2_iff[of "of_int \<lfloor>\<bar>x\<bar>\<rfloor>" k] pos by (simp add: k_def)
  qed
  with True pos show ?thesis by (simp add: expo_def bitlen_alt_def)
next
  case False
  define y where "y = 1 / \<bar>x\<bar>"
  define n where "n = \<lceil>y\<rceil> - 1"
  have ax: "0 < \<bar>x\<bar>" using assms by simp
  from False ax have y1: "1 < y" by (simp add: y_def)
  then have n1: "1 \<le> n" unfolding n_def by linarith
  have ny: "of_int n < y" "y \<le> of_int n + 1" unfolding n_def by linarith+
  define B where "B = \<lfloor>log 2 (of_int n)\<rfloor>"
  have B0: "0 \<le> B" using n1 by (simp add: B_def)
  have "(2::real) powi B \<le> of_int n \<and> of_int n < (2::real) powi (B + 1)"
    using floor_log2_iff[of "of_int n" B] n1 by (simp add: B_def)
  then have b: "(2::real) ^ nat B \<le> of_int n" "of_int n < (2::real) ^ nat (B + 1)"
    using B0 by (simp_all add: powi_nat)
  have "of_int n < (of_int (2 ^ nat (B + 1)) :: real)" using b(2) by simp
  then have "n < 2 ^ nat (B + 1)" by (simp only: of_int_less_iff)
  then have "n + 1 \<le> 2 ^ nat (B + 1)" by simp
  then have "(of_int (n + 1) :: real) \<le> of_int (2 ^ nat (B + 1))" by (simp only: of_int_le_iff)
  then have u: "y \<le> 2 ^ nat (B + 1)" using ny(2) by simp
  have l: "2 ^ nat B < y" using b(1) ny(1) by linarith
  have x_eq: "\<bar>x\<bar> = 1 / y" by (simp add: y_def)
  have p: "0 < (2::real) ^ nat B" "0 < (2::real) ^ nat (B + 1)" by simp_all
  have y0: "0 < y" using y1 by simp
  have "1 / 2 ^ nat (B + 1) \<le> 1 / y" using u y0 p(2) by (simp add: frac_le)
  moreover have "(2::real) powi (- (B + 1)) = 1 / 2 ^ nat (B + 1)"
    using powi_neg_nat[of "B + 1"] B0 by simp
  ultimately have g1: "2 powi (- (B + 1)) \<le> \<bar>x\<bar>"
    unfolding x_eq by simp
  have "1 / y < 1 / 2 ^ nat B" using l y0 p(1) by (simp add: frac_less2)
  moreover have "(2::real) powi (- (B + 1) + 1) = 1 / 2 ^ nat B"
    using powi_neg_nat[of B] B0 by simp
  ultimately have g2: "\<bar>x\<bar> < 2 powi (- (B + 1) + 1)"
    unfolding x_eq by simp
  have "\<lfloor>log 2 \<bar>x\<bar>\<rfloor> = - (B + 1)"
    using floor_log2_iff[OF ax, of "- (B + 1)"] g1 g2 by simp
  moreover have "expo x = - (B + 1)"
    using False n1 by (simp add: expo_def bitlen_alt_def y_def[symmetric] n_def[symmetric] B_def)
  ultimately show ?thesis by simp
qed

lemma expo_bounds:
  assumes "x \<noteq> 0" shows "2 powi expo x \<le> \<bar>x\<bar>" "\<bar>x\<bar> < 2 powi (expo x + 1)"
proof -
  have ax: "0 < \<bar>x\<bar>" using assms by simp
  have "2 powi (expo x) \<le> \<bar>x\<bar> \<and> \<bar>x\<bar> < 2 powi (expo x + 1)"
    using floor_log2_iff[OF ax, of "expo x"] expo_floor_log[OF assms] by simp
  then show "2 powi expo x \<le> \<bar>x\<bar>" "\<bar>x\<bar> < 2 powi (expo x + 1)" by simp_all
qed

lemma expo_eqI:
  assumes "2 powi e \<le> \<bar>x\<bar>" "\<bar>x\<bar> < 2 powi (e + 1)" shows "expo x = e"
proof -
  have "(0::real) < 2 powi e" by simp
  with assms(1) have ax: "0 < \<bar>x\<bar>" by linarith
  then have x0: "x \<noteq> 0" by simp
  have "\<lfloor>log 2 \<bar>x\<bar>\<rfloor> = e" using floor_log2_iff[OF ax, of e] assms by simp
  then show ?thesis using expo_floor_log[OF x0] by simp
qed

lemma powi_less_cancel: "(2::real) powi m < 2 powi n \<Longrightarrow> m < n"
proof (rule ccontr)
  assume a: "(2::real) powi m < 2 powi n" and "\<not> m < n"
  then have "n \<le> m" by simp
  then have "(2::real) powi n \<le> 2 powi m" by (rule power_int_increasing) simp
  with a show False by simp
qed

lemma powi_split: "(2::real) powi (m + n) = 2 powi m * 2 powi n"
  by (rule power_int_add) simp

lemma powi_is_int: "0 \<le> d \<Longrightarrow> (2::real) powi d = of_int (2 ^ nat d)"
  by (simp add: powi_nat)

lemma expo_mono: assumes "x \<noteq> 0" "\<bar>x\<bar> \<le> \<bar>y\<bar>" shows "expo x \<le> expo y"
proof -
  from assms have y: "y \<noteq> 0" by auto
  have "2 powi expo x \<le> \<bar>x\<bar>" using expo_bounds(1)[OF assms(1)] .
  also have "\<dots> \<le> \<bar>y\<bar>" by fact
  also have "\<dots> < 2 powi (expo y + 1)" using expo_bounds(2)[OF y] .
  finally have "expo x < expo y + 1" by (rule powi_less_cancel)
  then show ?thesis by simp
qed

subsection \<open>Rounding to an integer\<close>

lemma round_even_of_int: "round_even (of_int k) = k"
  by (simp add: round_even_def)

lemma round_even_cases:
  "round_even r = \<lfloor>r\<rfloor> \<or> round_even r = \<lfloor>r\<rfloor> + 1"
  by (simp add: round_even_def Let_def)

lemma round_even_mono: assumes "r \<le> s" shows "round_even r \<le> round_even s"
proof (cases "\<lfloor>r\<rfloor> = \<lfloor>s\<rfloor>")
  case True
  with assms have "r - of_int \<lfloor>r\<rfloor> \<le> s - of_int \<lfloor>s\<rfloor>" by simp
  with True show ?thesis by (auto simp add: round_even_def Let_def)
next
  case False
  from assms have "\<lfloor>r\<rfloor> \<le> \<lfloor>s\<rfloor>" by (rule floor_mono)
  with False have "\<lfloor>r\<rfloor> + 1 \<le> \<lfloor>s\<rfloor>" by simp
  moreover have "round_even r \<le> \<lfloor>r\<rfloor> + 1" using round_even_cases[of r] by auto
  moreover have "\<lfloor>s\<rfloor> \<le> round_even s" using round_even_cases[of s] by auto
  ultimately show ?thesis by linarith
qed

lemma round_even_neg: "round_even (- r) = - round_even r"
proof (cases "r = of_int \<lfloor>r\<rfloor>")
  case True
  then obtain k where "r = of_int k" ..
  then have "- r = of_int (- k)" by simp
  then show ?thesis using round_even_of_int[of "- k"] round_even_of_int[of k] \<open>r = of_int k\<close> by simp
next
  case False
  then have "\<lceil>r\<rceil> = \<lfloor>r\<rfloor> + 1" by (simp add: ceiling_altdef)
  then have f: "\<lfloor>- r\<rfloor> = - \<lfloor>r\<rfloor> - 1" by (simp add: ceiling_def)
  have "of_int \<lfloor>r\<rfloor> \<le> r" by (rule of_int_floor_le)
  with False have d: "0 < r - of_int \<lfloor>r\<rfloor>" by argo
  have e: "even (- \<lfloor>r\<rfloor> - 1) \<longleftrightarrow> odd \<lfloor>r\<rfloor>" by simp
  show ?thesis using d e unfolding round_even_def Let_def f
    by (auto simp add: algebra_simps)
qed

lemma round_even_abs_bound:
  assumes "\<bar>r\<bar> < of_int n" shows "\<bar>round_even r\<bar> \<le> n"
proof -
  from assms have "r \<le> of_int n" "of_int (- n) \<le> r" by simp_all
  then have "round_even r \<le> n" "- n \<le> round_even r"
    using round_even_mono[of r "of_int n"] round_even_mono[of "of_int (- n)" r]
    by (simp_all only: round_even_of_int)
  then show ?thesis by simp
qed

subsection \<open>Rounding to a number\<close>

text \<open>
  Rounding is odd, fixes the values it returns, and is monotone.
\<close>

lemma ulp_pos: "0 < ulp x"
  by (simp add: ulp_def)

lemma ulp_neg: "ulp (- x) = ulp x"
  by (simp add: ulp_def ulp_exp_def expo_def)

lemma fl_0: "fl 0 = 0"
  by (simp add: fl_def)

lemma fl_neg: "fl (- x) = - fl x"
  by (simp add: fl_def ulp_neg round_even_neg)

lemma fl_le_grid:
  assumes "x \<le> of_int m * ulp x" shows "fl x \<le> of_int m * ulp x"
proof (cases "x = 0")
  case True
  with assms show ?thesis by (simp add: fl_def)
next
  case False
  from assms ulp_pos[of x] have "x / ulp x \<le> of_int m" by (simp add: field_simps)
  then have "round_even (x / ulp x) \<le> m"
    using round_even_mono[of "x / ulp x" "of_int m"] by (simp add: round_even_of_int)
  then have "(of_int (round_even (x / ulp x)) :: real) \<le> of_int m" by (simp only: of_int_le_iff)
  then show ?thesis using ulp_pos[of x] False by (simp add: fl_def)
qed

lemma fl_ge_grid:
  assumes "of_int m * ulp x \<le> x" shows "of_int m * ulp x \<le> fl x"
proof (cases "x = 0")
  case True
  with assms show ?thesis by (simp add: fl_def)
next
  case False
  from assms ulp_pos[of x] have "of_int m \<le> x / ulp x" by (simp add: field_simps)
  then have "m \<le> round_even (x / ulp x)"
    using round_even_mono[of "of_int m" "x / ulp x"] by (simp add: round_even_of_int)
  then have "(of_int m :: real) \<le> of_int (round_even (x / ulp x))" by (simp only: of_int_le_iff)
  then show ?thesis using ulp_pos[of x] False by (simp add: fl_def)
qed

lemma fl_nonneg: "0 \<le> x \<Longrightarrow> 0 \<le> fl x"
  using fl_ge_grid[of 0 x] by simp

lemma fl_nonpos: "x \<le> 0 \<Longrightarrow> fl x \<le> 0"
  using fl_le_grid[of x 0] by simp

lemma ulp_alt: "ulp x = 2 powi ulp_exp x"
  by (simp add: ulp_def)

lemma grid_coarser:
  assumes "e \<le> e'"
  shows "\<exists>m. of_int k * 2 powi e' = of_int m * (2::real) powi e"
proof -
  have "(2::real) powi e' = 2 powi (e' - e) * 2 powi e"
    using powi_split[of "e' - e" e] by simp
  also have "(2::real) powi (e' - e) = of_int (2 ^ nat (e' - e))"
    using assms by (simp add: powi_is_int)
  finally have "of_int k * 2 powi e' = of_int (k * 2 ^ nat (e' - e)) * (2::real) powi e"
    by simp
  then show ?thesis ..
qed

lemma fl_grid: assumes "x = of_int m * ulp x" shows "fl x = x"
proof (cases "x = 0")
  case True then show ?thesis by (simp add: fl_def)
next
  case False
  from assms ulp_pos[of x] have "x / ulp x = of_int m" by (simp add: field_simps)
  then have "round_even (x / ulp x) = m" by (simp add: round_even_of_int)
  with assms False show ?thesis by (simp add: fl_def)
qed

lemma fl_fixed:
  assumes k: "\<bar>k\<bar> < 2 ^ 53" and e: "- 1074 \<le> e"
  shows "fl (of_int k * 2 powi e) = of_int k * 2 powi e"
proof (cases "k = 0")
  case True then show ?thesis by (simp add: fl_def)
next
  case False
  define y :: real where "y = of_int k * 2 powi e"
  have y0: "y \<noteq> 0" using False by (simp add: y_def)
  have "\<bar>y\<bar> = of_int \<bar>k\<bar> * 2 powi e" by (simp add: y_def abs_mult)
  also have "\<dots> < of_int (2 ^ 53) * 2 powi e"
    using k by (intro mult_strict_right_mono) (simp_all only: of_int_less_iff zero_less_power_int zero_less_numeral)
  also have "\<dots> = 2 powi (53 + e)" using powi_split[of 53 e] by simp
  finally have "\<bar>y\<bar> < 2 powi (53 + e)" .
  with expo_bounds(1)[OF y0] have "2 powi expo y < (2::real) powi (53 + e)" by linarith
  then have "expo y < 53 + e" by (rule powi_less_cancel)
  with e have "ulp_exp y \<le> e" by (simp add: ulp_exp_def)
  from grid_coarser[OF this, of k] obtain m where "y = of_int m * ulp y"
    by (auto simp add: y_def[symmetric] ulp_alt)
  then have "fl y = y" by (rule fl_grid)
  then show ?thesis by (simp add: y_def)
qed

lemma quotient_bound: assumes "x \<noteq> 0" shows "\<bar>x\<bar> / ulp x < 2 ^ 53"
proof -
  have "(2::real) powi (expo x - 52) \<le> ulp x"
    unfolding ulp_def ulp_exp_def by (rule power_int_increasing) simp_all
  then have "2 ^ 53 * (2::real) powi (expo x - 52) \<le> 2 ^ 53 * ulp x" by simp
  moreover have "2 ^ 53 * (2::real) powi (expo x - 52) = 2 powi (expo x + 1)"
    using powi_split[of 53 "expo x - 52"] by (simp add: add.commute)
  ultimately have "2 powi (expo x + 1) \<le> 2 ^ 53 * ulp x" by simp
  with expo_bounds(2)[OF assms] have "\<bar>x\<bar> < 2 ^ 53 * ulp x" by linarith
  then show ?thesis using ulp_pos[of x] by (simp add: field_simps)
qed

lemma fl_idem: "fl (fl x) = fl x"
proof (cases "x = 0")
  case True then show ?thesis by (simp add: fl_def)
next
  case False
  define K where "K = round_even (x / ulp x)"
  have fx: "fl x = of_int K * 2 powi ulp_exp x" using False by (simp add: fl_def K_def ulp_alt)
  have e: "- 1074 \<le> ulp_exp x" by (simp add: ulp_exp_def)
  have "\<bar>x / ulp x\<bar> < of_int (2 ^ 53)" using quotient_bound[OF False] ulp_pos[of x] by simp
  then have Kb: "\<bar>K\<bar> \<le> 2 ^ 53" unfolding K_def by (rule round_even_abs_bound)
  show ?thesis
  proof (cases "\<bar>K\<bar> < 2 ^ 53")
    case True
    from fl_fixed[OF True e] show ?thesis by (simp add: fx)
  next
    case False
    with Kb have "\<bar>K\<bar> = 2 ^ 53" by simp
    then consider "K = 2 ^ 53" | "K = - (2 ^ 53)" by linarith
    then obtain H where H: "K = 2 * H" "\<bar>H\<bar> < 2 ^ 53"
    proof cases
      case 1 then show ?thesis using that[of "2 ^ 52"] by simp
    next
      case 2 then show ?thesis using that[of "- (2 ^ 52)"] by simp
    qed
    have "fl x = of_int H * 2 powi (ulp_exp x + 1)"
      using powi_split[of "ulp_exp x" 1] by (simp add: fx H(1))
    moreover have "fl (of_int H * 2 powi (ulp_exp x + 1)) = of_int H * 2 powi (ulp_exp x + 1)"
      using e by (intro fl_fixed H(2)) simp
    ultimately show ?thesis by simp
  qed
qed

lemma fl_mono_pos: assumes "0 < x" "x \<le> y" shows "fl x \<le> fl y"
proof (cases "ulp_exp x = ulp_exp y")
  case True
  then have u: "ulp y = ulp x" by (simp add: ulp_alt)
  from assms ulp_pos[of x] have "x / ulp x \<le> y / ulp x" by (simp add: divide_right_mono)
  then have "round_even (x / ulp x) \<le> round_even (y / ulp x)" by (rule round_even_mono)
  then have "(of_int (round_even (x / ulp x)) :: real) \<le> of_int (round_even (y / ulp x))"
    by (simp only: of_int_le_iff)
  then have "of_int (round_even (x / ulp x)) * ulp x \<le> of_int (round_even (y / ulp x)) * ulp x"
    using ulp_pos[of x] by (simp only: mult_le_cancel_right_pos)
  with assms show ?thesis by (simp add: fl_def u)
next
  case False
  have x0: "x \<noteq> 0" and y0: "y \<noteq> 0" using assms by simp_all
  have le: "expo x \<le> expo y" using expo_mono[OF x0, of y] assms by simp
  then have "ulp_exp x \<le> ulp_exp y" by (simp add: ulp_exp_def)
  with False have lt: "ulp_exp x < ulp_exp y" by simp
  then have uy: "ulp_exp y = expo y - 52" and ex: "expo x < expo y"
    using le by (auto simp add: ulp_exp_def max_def split: if_splits)
  define M :: real where "M = 2 powi expo y"
  have xM: "x \<le> M"
  proof -
    have "x < 2 powi (expo x + 1)" using expo_bounds(2)[OF x0] assms by simp
    also have "\<dots> \<le> 2 powi expo y" using ex by (intro power_int_increasing) simp_all
    finally show ?thesis by (simp add: M_def)
  qed
  have My: "M \<le> y" using expo_bounds(1)[OF y0] assms by (simp add: M_def)
  have "ulp_exp x \<le> expo y" using lt uy by simp
  from grid_coarser[OF this, of 1] obtain m where m: "M = of_int m * ulp x"
    by (auto simp add: M_def ulp_alt)
  have "ulp_exp y \<le> expo y" using uy by simp
  from grid_coarser[OF this, of 1] obtain n where n: "M = of_int n * ulp y"
    by (auto simp add: M_def ulp_alt)
  have "fl x \<le> M" using fl_le_grid[of x m] xM m by simp
  moreover have "M \<le> fl y" using fl_ge_grid[of n y] My n by simp
  ultimately show ?thesis by simp
qed

lemma fl_mono: assumes "x \<le> y" shows "fl x \<le> fl y"
proof -
  consider "0 < x" | "x \<le> 0" "0 \<le> y" | "y < 0" by linarith
  then show ?thesis
  proof cases
    case 1 then show ?thesis using assms by (rule fl_mono_pos)
  next
    case 2
    then have "fl x \<le> 0" "0 \<le> fl y" by (simp_all add: fl_nonpos fl_nonneg)
    then show ?thesis by simp
  next
    case 3
    then have "0 < - y" "- y \<le> - x" using assms by simp_all
    then have "fl (- y) \<le> fl (- x)" by (rule fl_mono_pos)
    then show ?thesis by (simp add: fl_neg)
  qed
qed

subsection \<open>Finite results\<close>

lemma MAX_VALUE_pos: "0 < MAX_VALUE"
  by (simp add: MAX_VALUE_def)

lemma num_Some_iff: "num r = Some v \<longleftrightarrow> v = fl r \<and> \<bar>fl r\<bar> \<le> MAX_VALUE"
  by (auto simp add: num_def Let_def)

lemma num_0: "num 0 = Some 0"
  using MAX_VALUE_pos by (simp add: num_def fl_0)

lemma num_fixed: "num r = Some v \<Longrightarrow> num v = Some v"
  by (simp add: num_Some_iff fl_idem)

lemma num_neg: "num r = Some v \<Longrightarrow> num (- r) = Some (- v)"
  by (simp add: num_Some_iff fl_neg)

lemma num_mono: "num r = Some a \<Longrightarrow> num s = Some b \<Longrightarrow> r \<le> s \<Longrightarrow> a \<le> b"
  by (simp add: num_Some_iff fl_mono)

lemma num_squeeze:
  assumes "num lo = Some a" "num hi = Some b" "lo \<le> r" "r \<le> hi"
  shows "\<exists>v. num r = Some v \<and> a \<le> v \<and> v \<le> b"
proof -
  have "fl lo \<le> fl r" "fl r \<le> fl hi" using assms(3,4) by (simp_all add: fl_mono)
  moreover have "a = fl lo" "\<bar>fl lo\<bar> \<le> MAX_VALUE" "b = fl hi" "\<bar>fl hi\<bar> \<le> MAX_VALUE"
    using assms(1,2) by (simp_all add: num_Some_iff)
  ultimately show ?thesis by (simp add: num_Some_iff)
qed

lemma num_nonneg: "num r = Some v \<Longrightarrow> 0 \<le> r \<Longrightarrow> 0 \<le> v"
  by (auto simp add: num_Some_iff fl_nonneg)

subsection \<open>Rounding of particular values\<close>

text \<open>
  Integers below \<open>2 ^ 53\<close> and their halves are numbers; \<open>2 ^ 53 + 1\<close> and \<open>2 ^ 106 + 1\<close> are not.
\<close>

lemma fl_int: "\<bar>k\<bar> < 2 ^ 53 \<Longrightarrow> fl (of_int k) = of_int k"
  using fl_fixed[of k 0] by simp

lemma num_int: assumes "\<bar>k\<bar> < 2 ^ 53" shows "num (of_int k) = Some (of_int k)"
proof -
  have "\<bar>of_int k :: real\<bar> = of_int \<bar>k\<bar>" by simp
  also have "\<dots> \<le> of_int (2 ^ 53)" using assms by (simp only: of_int_le_iff)
  also have "\<dots> \<le> MAX_VALUE" by (simp add: MAX_VALUE_def)
  finally show ?thesis using fl_int[OF assms] by (simp add: num_Some_iff)
qed

lemma num_numeral: "numeral n < (2::int) ^ 53 \<Longrightarrow> num (numeral n) = Some (numeral n)"
  using num_int[of "numeral n"] by simp

lemma num_neg_numeral: "numeral n < (2::int) ^ 53 \<Longrightarrow> num (- numeral n) = Some (- numeral n)"
  using num_int[of "- numeral n"] by simp

lemma num_1: "num 1 = Some 1"
  using num_int[of 1] by simp

lemma num_neg_1: "num (- 1) = Some (- 1)"
  using num_int[of "- 1"] by simp

lemma num_half_int: assumes "\<bar>k\<bar> < 2 ^ 53" shows "num (of_int k / 2) = Some (of_int k / 2)"
proof -
  have e: "(of_int k / 2 :: real) = of_int k * 2 powi (- 1)" by (simp add: power_int_minus)
  have "fl (of_int k / 2) = of_int k / 2" unfolding e using assms by (intro fl_fixed) simp_all
  moreover have "\<bar>of_int k / 2 :: real\<bar> \<le> of_int \<bar>k\<bar>" by simp
  moreover have "(of_int \<bar>k\<bar> :: real) \<le> of_int (2 ^ 53)" using assms by (simp only: of_int_le_iff)
  moreover have "(of_int (2 ^ 53) :: real) \<le> MAX_VALUE" by (simp add: MAX_VALUE_def)
  ultimately show ?thesis by (simp add: num_Some_iff)
qed

lemma num_half_numeral:
  "numeral n < (2::int) ^ 53 \<Longrightarrow> num (numeral n / 2) = Some (numeral n / 2)"
  "numeral n < (2::int) ^ 53 \<Longrightarrow> num (- (numeral n / 2)) = Some (- (numeral n / 2))"
  "num (1 / 2) = Some (1 / 2)"
  "num (- (1 / 2)) = Some (- (1 / 2))"
  using num_half_int[of "numeral n"] num_half_int[of "- numeral n"] num_half_int[of 1]
    num_half_int[of "- 1"]
  by simp_all

lemma num_quarter: "num (1 / 4) = Some (1 / 4)"
proof -
  have e: "(1 / 4 :: real) = of_int 1 * 2 powi (- 2)" by (simp add: power_int_minus)
  have "fl (1 / 4) = 1 / 4" unfolding e by (intro fl_fixed) simp_all
  then show ?thesis by (simp add: num_Some_iff MAX_VALUE_def)
qed

lemma fl_by_exp:
  assumes "2 powi e \<le> \<bar>x\<bar>" "\<bar>x\<bar> < 2 powi (e + 1)"
  shows "fl x = of_int (round_even (x / 2 powi (max (e - 52) (- 1074)))) * 2 powi (max (e - 52) (- 1074))"
proof -
  have p: "(0::real) < 2 powi e" by simp
  have "expo x = e" using assms by (rule expo_eqI)
  moreover have "0 < \<bar>x\<bar>" using assms(1) p by linarith
  then have "x \<noteq> 0" by simp
  ultimately show ?thesis by (simp add: fl_def ulp_def ulp_exp_def)
qed

lemma fl_2_53: "fl 9007199254740992 = 9007199254740992"
  using fl_fixed[of 1 53] by simp

lemma fl_2_53_1: "fl 9007199254740993 = 9007199254740992"
  using fl_by_exp[of 53 9007199254740993] by (simp add: round_even_def)

lemma fl_2_106: "fl 81129638414606681695789005144064 = 81129638414606681695789005144064"
  using fl_fixed[of 1 106] by simp

lemma fl_2_106_1: "fl 81129638414606681695789005144065 = 81129638414606681695789005144064"
  using fl_by_exp[of 106 81129638414606681695789005144065] by (simp add: round_even_def)

lemma num_by_fl: "fl x = v \<Longrightarrow> \<bar>v\<bar> \<le> MAX_VALUE \<Longrightarrow> num x = Some v"
  by (simp add: num_Some_iff)

lemma num_2_53: "num 9007199254740992 = Some 9007199254740992"
  by (rule num_by_fl[OF fl_2_53]) (simp add: MAX_VALUE_def)

lemma num_2_53_1: "num 9007199254740993 = Some 9007199254740992"
  by (rule num_by_fl[OF fl_2_53_1]) (simp add: MAX_VALUE_def)

lemma num_2_106: "num 81129638414606681695789005144064 = Some 81129638414606681695789005144064"
  by (rule num_by_fl[OF fl_2_106]) (simp add: MAX_VALUE_def)

lemma num_2_106_1: "num 81129638414606681695789005144065 = Some 81129638414606681695789005144064"
  by (rule num_by_fl[OF fl_2_106_1]) (simp add: MAX_VALUE_def)

lemma fl_small: "fl 9 = 9" "fl 16 = 16" "fl 12 = 12"
  using fl_int[of 9] fl_int[of 16] fl_int[of 12] by simp_all

lemmas num_eval = num_0 num_1 num_neg_1 num_numeral num_neg_numeral num_2_53 num_2_53_1
  num_2_106 num_2_106_1 num_half_numeral

lemmas fitter64_defs = LineFitter_appended64_def LineFitter_onAddPoint64_def
  LineFitter_onClear_def nth_opt_def fadd_def fsub_def fmul_def fdiv_def rangeSum64_def
  fitLine64_def fitLine_static64_def EPSILON_def line_value64_def

lemmas box64_defs = ErrorBox_extend64_def ErrorBox_error64_def map_line64_def unmapc64_def
  remapc64_def fadd_def fsub_def fmul_def fdiv_def min5_def max5_def Let_def

subsection \<open>The prefix sums of the fitter\<close>

lemma onAddPoint64_sums:
  assumes "LineFitter_onAddPoint64 g p = Some h"
  shows "\<exists>a b c d e. sumsX h = sumsX g @ [a] \<and> sumsY h = sumsY g @ [b] \<and>
     sumsXX h = sumsXX g @ [c] \<and> sumsYY h = sumsYY g @ [d] \<and> sumsXY h = sumsXY g @ [e]"
  using assms by (auto simp add: LineFitter_onAddPoint64_def Let_def split: bind_splits)

lemma addPoints64_sums:
  "LineFitter_addPoints64 g ps = Some f \<Longrightarrow>
   \<exists>a b c d e. sumsX f = sumsX g @ a \<and> sumsY f = sumsY g @ b \<and>
     sumsXX f = sumsXX g @ c \<and> sumsYY f = sumsYY g @ d \<and> sumsXY f = sumsXY g @ e"
proof (induction ps arbitrary: g)
  case Nil
  then show ?case by simp
next
  case (Cons p ps)
  then obtain h where h: "LineFitter_onAddPoint64 g p = Some h"
    and r: "LineFitter_addPoints64 h ps = Some f"
    by (auto split: bind_splits)
  from onAddPoint64_sums[OF h] Cons.IH[OF r] show ?case by auto
qed

lemma first_point_sums:
  assumes h: "LineFitter_onAddPoint64 LineFitter_onClear p = Some h"
    and x: "is_number (px p)" and y: "is_number (py p)"
  shows "sumsX h = [0, px p] \<and> sumsY h = [0, py p] \<and> sumsXX h = [0, fl (px p * px p)] \<and>
     sumsYY h = [0, fl (py p * py p)] \<and> sumsXY h = [0, fl (px p * py p)] \<and>
     num (fl (px p * px p)) = Some (fl (px p * px p)) \<and>
     num (fl (py p * py p)) = Some (fl (py p * py p)) \<and>
     num (fl (px p * py p)) = Some (fl (px p * py p))"
proof -
  from h obtain xx yy xy where
    xx: "num (px p * px p) = Some xx" and yy: "num (py p * py p) = Some yy" and
    xy: "num (px p * py p) = Some xy"
    by (auto simp add: LineFitter_onAddPoint64_def LineFitter_onClear_def Let_def nth_opt_def
        fmul_def split: bind_splits)
  have e: "xx = fl (px p * px p)" "yy = fl (py p * py p)" "xy = fl (px p * py p)"
    using xx yy xy by (simp_all add: num_Some_iff)
  have f: "num xx = Some xx" "num yy = Some yy" "num xy = Some xy"
    using xx yy xy by (simp_all add: num_fixed)
  from h x y show ?thesis
    using xx yy xy f unfolding e[symmetric]
    by (auto simp add: LineFitter_onAddPoint64_def LineFitter_onClear_def Let_def nth_opt_def
        fmul_def fadd_def is_number_def split: bind_splits)
qed

lemma recovered_first:
  assumes app: "LineFitter_appended64 (p # ps) = Some f"
    and x: "is_number (px p)" and y: "is_number (py p)"
  shows "contributions_recovered f p 0"
proof -
  from app obtain h where h: "LineFitter_onAddPoint64 LineFitter_onClear p = Some h"
    and r: "LineFitter_addPoints64 h ps = Some f"
    by (auto simp add: LineFitter_appended64_def split: bind_splits)
  from first_point_sums[OF h x y] addPoints64_sums[OF r]
  obtain a b c d e where
    s: "sumsX f = [0, px p] @ a" "sumsY f = [0, py p] @ b" "sumsXX f = [0, fl (px p * px p)] @ c"
       "sumsYY f = [0, fl (py p * py p)] @ d" "sumsXY f = [0, fl (px p * py p)] @ e"
    and n: "num (fl (px p * px p)) = Some (fl (px p * px p))"
     "num (fl (py p * py p)) = Some (fl (py p * py p))"
     "num (fl (px p * py p)) = Some (fl (px p * py p))"
    by (elim exE conjE) (rule that; simp)
  show ?thesis
    using x y n unfolding contributions_recovered_def rangeSum64_def s
    by (simp add: nth_opt_def fsub_def is_number_def)
qed

lemma rangeSum64_number: "rangeSum64 ss i j = Some v \<Longrightarrow> num v = Some v"
  by (auto simp add: rangeSum64_def fsub_def num_fixed split: bind_splits)

lemma fitLine64_recovered:
  assumes rec: "contributions_recovered f p i" and c: "fadd (px p) (py p) = Some c"
  shows "fitLine64 f i i = Some \<lparr>la = - 1, lb = - 1, lc = c\<rparr>"
proof -
  let ?x = "px p" and ?y = "py p"
  from rec have r: "rangeSum64 (sumsX f) i i = Some ?x" "rangeSum64 (sumsY f) i i = Some ?y"
    "rangeSum64 (sumsXX f) i i = Some (fl (?x * ?x))" "rangeSum64 (sumsYY f) i i = Some (fl (?y * ?y))"
    "rangeSum64 (sumsXY f) i i = Some (fl (?x * ?y))"
    by (simp_all add: contributions_recovered_def)
  have nxx: "num (fl (?x * ?x)) = Some (fl (?x * ?x))" using r(3) by (rule rangeSum64_number)
  have nyy: "num (fl (?y * ?y)) = Some (fl (?y * ?y))" using r(4) by (rule rangeSum64_number)
  have xx: "num (?x * ?x) = Some (fl (?x * ?x))" using nxx by (simp add: num_Some_iff fl_idem)
  have yy: "num (?y * ?y) = Some (fl (?y * ?y))" using nyy by (simp add: num_Some_iff fl_idem)
  have nc: "num c = Some c" using c by (simp add: fadd_def num_fixed)
  have eps: "(0::real) \<le> EPSILON" by (simp add: EPSILON_def)
  have "fitLine_static64 ?x ?y (fl (?x * ?x)) (fl (?y * ?y)) (fl (?x * ?y)) 1
      = Some \<lparr>la = - 1, lb = - 1, lc = c\<rparr>"
    using nxx nyy xx yy c nc eps
    by (simp add: fitLine_static64_def fmul_def fsub_def fdiv_def num_0)
  then show ?thesis by (simp add: fitLine64_def r)
qed

lemma line_value64_recovered:
  assumes x: "is_number (px p)" and y: "is_number (py p)" and c: "fadd (px p) (py p) = Some c"
  shows "line_value64 \<lparr>la = - 1, lb = - 1, lc = c\<rparr> p = Some 0"
proof -
  have nx: "num (- px p) = Some (- px p)" using x by (simp add: is_number_def num_neg)
  have ny: "num (- py p) = Some (- py p)" using y by (simp add: is_number_def num_neg)
  have "num (- (px p + py p)) = Some (- c)"
    using num_neg[of "px p + py p" c] c by (simp add: fadd_def)
  moreover have "- px p - py p = - (px p + py p)" by simp
  ultimately have s: "num (- px p - py p) = Some (- c)" by (simp only:)
  show ?thesis using nx ny s by (simp add: line_value64_def fmul_def fadd_def num_0)
qed

subsection \<open>The error of a box\<close>

lemma error64_at_le:
  assumes err: "ErrorBox_error64 box = Some e"
    and t: "eb_t0 box \<le> lv_t q" "lv_t q \<le> eb_t1 box"
  shows "\<exists>d. ErrorBox_error64 (ErrorBox_at (eb_line box) q) = Some d \<and> d \<le> e"
proof -
  let ?lo = "eb_t0 box" and ?hi = "eb_t1 box" and ?a = "la (eb_line box)" and ?b = "lb (eb_line box)"
  let ?t = "lv_t q"
  from err obtain t00 t11 aa bb n where
    t00: "num (?lo * ?lo) = Some t00" and t11: "num (?hi * ?hi) = Some t11" and
    aa: "num (?a * ?a) = Some aa" and bb: "num (?b * ?b) = Some bb" and
    n: "num (aa + bb) = Some n" and e: "num (max t00 t11 * n) = Some e"
    by (auto simp add: ErrorBox_error64_def Let_def fmul_def fadd_def split: bind_splits)
  have aa0: "0 \<le> aa" using num_nonneg[OF aa] by simp
  have bb0: "0 \<le> bb" using num_nonneg[OF bb] by simp
  have n0: "0 \<le> n" using num_nonneg[OF n] aa0 bb0 by simp
  have sq: "?t * ?t \<le> max (?lo * ?lo) (?hi * ?hi)" using t by (rule sq_le_max_ends)
  have "\<exists>tt. num (?t * ?t) = Some tt \<and> 0 \<le> tt \<and> tt \<le> max t00 t11"
  proof (cases "?lo * ?lo \<le> ?hi * ?hi")
    case True
    with sq have "?t * ?t \<le> ?hi * ?hi" by simp
    from num_squeeze[OF num_0 t11 _ this] show ?thesis by auto
  next
    case False
    with sq have "?t * ?t \<le> ?lo * ?lo" by simp
    from num_squeeze[OF num_0 t00 _ this] show ?thesis by auto
  qed
  then obtain tt where tt: "num (?t * ?t) = Some tt" "0 \<le> tt" "tt \<le> max t00 t11" by blast
  have "0 \<le> tt * n" using tt(2) n0 by simp
  moreover have "tt * n \<le> max t00 t11 * n" using tt(3) n0 by (rule mult_right_mono)
  ultimately obtain d where d: "num (tt * n) = Some d" "d \<le> e"
    using num_squeeze[OF num_0 e] by blast
  have "ErrorBox_error64 (ErrorBox_at (eb_line box) q) = Some d"
    using tt(1) aa bb n d(1)
    by (simp add: ErrorBox_error64_def ErrorBox_at_def Let_def fmul_def fadd_def)
  with d(2) show ?thesis by blast
qed

subsection \<open>Example runs in binary64\<close>

lemma big_first_run: "LineFitter_appended64 big_first_path = Some big_first_fitter"
  by (simp add: big_first_path_def pt_def big_first_fitter_def fitter64_defs num_eval)

lemma big_first_fit:
  "fitLine64 big_first_fitter 1 1 = Some \<lparr>la = - 1, lb = - 1, lc = 0\<rparr>"
  by (simp add: big_first_fitter_def fitter64_defs num_eval)

lemma big_first_value:
  "line_value64 \<lparr>la = - 1, lb = - 1, lc = 0\<rparr> (pt 1 0) = Some (- 1)"
  by (simp add: pt_def fitter64_defs num_eval)

lemma rounded_sum_run: "LineFitter_appended64 rounded_sum_path = Some rounded_sum_fitter"
  by (simp add: rounded_sum_path_def pt_def rounded_sum_fitter_def fitter64_defs num_eval)

lemma small_run: "LineFitter_appended64 small_path = Some small_fitter"
  by (simp add: small_path_def pt_def small_fitter_def fitter64_defs num_eval)

lemma small_recovered: "contributions_recovered small_fitter (small_path ! 1) 1"
  by (simp add: contributions_recovered_def small_path_def pt_def small_fitter_def fitter64_defs
      num_eval fl_small)

lemma diag_map: "map_line64 diag_line (pt 3 1) = Some \<lparr>lv_s = - 1, lv_t = 1\<rparr>"
  by (simp add: pt_def diag_line_def box64_defs num_eval)

lemma diag_corners:
  "remapc64 diag_line (eb_line unit_box) (eb_s0 unit_box) (eb_t0 unit_box)
     = Some \<lparr>lv_s = - 1, lv_t = 0\<rparr>"
  "remapc64 diag_line (eb_line unit_box) (eb_s0 unit_box) (eb_t1 unit_box)
     = Some \<lparr>lv_s = - (1 / 2), lv_t = 1 / 2\<rparr>"
  "remapc64 diag_line (eb_line unit_box) (eb_s1 unit_box) (eb_t0 unit_box)
     = Some \<lparr>lv_s = 0, lv_t = - 1\<rparr>"
  "remapc64 diag_line (eb_line unit_box) (eb_s1 unit_box) (eb_t1 unit_box)
     = Some \<lparr>lv_s = 1 / 2, lv_t = - (1 / 2)\<rparr>"
  by (simp_all add: diag_line_def unit_box_def box64_defs num_eval)

lemma diag_extend: "ErrorBox_extend64 unit_box diag_line (pt 3 1) = Some diag_box"
  unfolding ErrorBox_extend64_def diag_map diag_corners
  by (simp add: diag_box_def min5_def max5_def)

lemma diag_error: "ErrorBox_error64 diag_box = Some 2"
  by (simp add: diag_box_def diag_line_def box64_defs num_eval)


section \<open>The claims\<close>

subsection \<open>C6: the line fitted to a single point\<close>

text \<open>
  C6 says that for every index \<open>i\<close> of the appended sequence \<open>fitLine(i, i)\<close> returns a line
  with \<open>a x + b y + c = 0\<close> exactly at point \<open>i\<close>.  The range sums that \<open>fitLine\<close> reads are
  differences of prefix sums, and a prefix sum is rounded when it is pushed.  After the
  points \<open>(2 ^ 53, 0)\<close> and \<open>(1, 0)\<close> the prefix sums of the abscissas are 0, \<open>2 ^ 53\<close> and
  again \<open>2 ^ 53\<close>, because \<open>2 ^ 53 + 1\<close> is not a binary64 value: all five range sums at
  index 1 are 0, \<open>fitLine(1, 1)\<close> is the line \<open>- x - y = 0\<close>, and at the point \<open>(1, 0)\<close>
  the value of \<open>a x + b y + c\<close> is \<open>- 1\<close>, both as the code evaluates it and exactly.
\<close>

theorem fitLine_misses_point_after_large_prefix:
  "LineFitter_appended64 big_first_path = Some big_first_fitter \<and>
   big_first_path ! 1 = pt 1 0 \<and>
   fitLine64 big_first_fitter 1 1 = Some \<lparr>la = - 1, lb = - 1, lc = 0\<rparr> \<and>
   line_value64 \<lparr>la = - 1, lb = - 1, lc = 0\<rparr> (pt 1 0) = Some (- 1) \<and>
   la \<lparr>la = - 1, lb = - 1, lc = 0\<rparr> * px (pt 1 0) + lb \<lparr>la = - 1, lb = - 1, lc = 0\<rparr> * py (pt 1 0)
     + lc \<lparr>la = - 1, lb = - 1, lc = 0\<rparr> = - 1"
  using big_first_run big_first_fit big_first_value
  by (simp add: big_first_path_def pt_def)

text \<open>
  C6 as amended.  Let the points be binary64 values.  At index 0, and at every index at
  which the differences of the prefix sums give back what \<open>onAddPoint\<close> added for the
  point (its coordinates, and the rounded squares and product), \<open>fitLine(i, i)\<close> returns the
  line \<open>(- 1, - 1, c)\<close>, where \<open>c\<close> is the binary64 sum of the two coordinates.  On that line
  \<open>a x + b y + c\<close> evaluates to 0 in binary64, and it is 0 exactly if and only if the sum
  of the coordinates is a binary64 value.  (The hypotheses are about runs without an
  infinite value: the fitter exists, and the sum of the coordinates is finite.)
\<close>

theorem fitLine_single_point_rounded:
  assumes app: "LineFitter_appended64 ps = Some f" and i: "i < length ps"
    and x: "is_number (px (ps ! i))" and y: "is_number (py (ps ! i))"
    and rec: "i = 0 \<or> contributions_recovered f (ps ! i) (int i)"
    and c: "fadd (px (ps ! i)) (py (ps ! i)) = Some c"
  shows "fitLine64 f (int i) (int i) = Some \<lparr>la = - 1, lb = - 1, lc = c\<rparr> \<and>
         line_value64 \<lparr>la = - 1, lb = - 1, lc = c\<rparr> (ps ! i) = Some 0 \<and>
         ((- 1) * px (ps ! i) + (- 1) * py (ps ! i) + c = 0
            \<longleftrightarrow> fl (px (ps ! i) + py (ps ! i)) = px (ps ! i) + py (ps ! i))"
proof -
  have r: "contributions_recovered f (ps ! i) (int i)"
  proof (cases "i = 0")
    case True
    with i obtain p qs where ps: "ps = p # qs" by (cases ps) auto
    from recovered_first[of p qs f] app x y True show ?thesis by (simp add: ps)
  next
    case False
    with rec show ?thesis by simp
  qed
  have 1: "fitLine64 f (int i) (int i) = Some \<lparr>la = - 1, lb = - 1, lc = c\<rparr>"
    using r c by (rule fitLine64_recovered)
  have 2: "line_value64 \<lparr>la = - 1, lb = - 1, lc = c\<rparr> (ps ! i) = Some 0"
    using x y c by (rule line_value64_recovered)
  have "c = fl (px (ps ! i) + py (ps ! i))" using c by (simp add: fadd_def num_Some_iff)
  then have 3: "(- 1) * px (ps ! i) + (- 1) * py (ps ! i) + c = 0
            \<longleftrightarrow> fl (px (ps ! i) + py (ps ! i)) = px (ps ! i) + py (ps ! i)" by auto
  from 1 2 3 show ?thesis by blast
qed

text \<open>
  C6 as amended, twice: at index 0 of the path \<open>(2 ^ 53, 1)\<close>, where the sum of the
  coordinates is rounded to \<open>2 ^ 53\<close> (the line misses the point by 1 exactly, and by
  nothing as evaluated), and at index 1 of the path \<open>(1, 2), (3, 4)\<close>, where the prefix sums
  are exact.
\<close>

theorem fitLine_single_point_rounded_witness:
  "LineFitter_appended64 rounded_sum_path = Some rounded_sum_fitter \<and>
   rounded_sum_path ! 0 = pt (2 ^ 53) 1 \<and>
   is_number (2 ^ 53) \<and> is_number 1 \<and> fadd (2 ^ 53) 1 = Some (2 ^ 53) \<and>
   fitLine64 rounded_sum_fitter 0 0 = Some \<lparr>la = - 1, lb = - 1, lc = 2 ^ 53\<rparr> \<and>
   line_value64 \<lparr>la = - 1, lb = - 1, lc = 2 ^ 53\<rparr> (pt (2 ^ 53) 1) = Some 0 \<and>
   fl (2 ^ 53 + 1) = 2 ^ 53 \<and>
   LineFitter_appended64 small_path = Some small_fitter \<and>
   small_path ! 1 = pt 3 4 \<and>
   is_number 3 \<and> is_number 4 \<and> fadd 3 4 = Some 7 \<and>
   contributions_recovered small_fitter (pt 3 4) 1 \<and>
   fitLine64 small_fitter 1 1 = Some \<lparr>la = - 1, lb = - 1, lc = 7\<rparr> \<and>
   line_value64 \<lparr>la = - 1, lb = - 1, lc = 7\<rparr> (pt 3 4) = Some 0"
proof -
  have n: "is_number (2 ^ 53)" "is_number 1" "is_number 3" "is_number 4"
    by (simp_all add: is_number_def num_eval)
  have s: "fadd (2 ^ 53) 1 = Some (2 ^ 53)" "fadd 3 4 = Some 7"
    by (simp_all add: fadd_def num_eval)
  have p: "rounded_sum_path ! 0 = pt (2 ^ 53) 1" "small_path ! 1 = pt 3 4"
    by (simp_all add: rounded_sum_path_def small_path_def)
  have r: "contributions_recovered small_fitter (pt 3 4) 1"
    using small_recovered by (simp add: small_path_def)
  have f: "fl (2 ^ 53 + 1) = 2 ^ 53" using fl_2_53_1 by simp
  from fitLine_single_point_rounded[of rounded_sum_path rounded_sum_fitter 0 "2 ^ 53"]
    rounded_sum_run n s
  have a: "fitLine64 rounded_sum_fitter 0 0 = Some \<lparr>la = - 1, lb = - 1, lc = 2 ^ 53\<rparr> \<and>
     line_value64 \<lparr>la = - 1, lb = - 1, lc = 2 ^ 53\<rparr> (pt (2 ^ 53) 1) = Some 0"
    by (simp add: rounded_sum_path_def pt_def)
  from fitLine_single_point_rounded[of small_path small_fitter 1 7] small_run n s r
  have b: "fitLine64 small_fitter 1 1 = Some \<lparr>la = - 1, lb = - 1, lc = 7\<rparr> \<and>
     line_value64 \<lparr>la = - 1, lb = - 1, lc = 7\<rparr> (pt 3 4) = Some 0"
    by (simp add: small_path_def pt_def)
  from a b n s p r f rounded_sum_run small_run show ?thesis by simp
qed

subsection \<open>C2: the direction of \<open>remap\<close>\<close>

text \<open>
  C2 says that \<open>L1.remap(L2, l)\<close> reads \<open>l\<close> in the receiver's frame and returns the
  coordinates in the argument's frame, \<open>L2.map(L1.unmap(l))\<close>, as the comment above
  \<open>remap\<close> in \<open>line.ts\<close> does.  The body computes \<open>this.map(other.unmapc(s, t))\<close>: it reads
  \<open>l\<close> in the argument's frame and returns the coordinates in the receiver's.  For the
  receiver \<open>x = 0\<close>, the argument \<open>y = 0\<close> and \<open>l = (1, 0)\<close> the code returns \<open>(0, -1)\<close>, and
  the claimed composition is \<open>(0, 1)\<close>.
\<close>

theorem remap_reads_argument_frame:
  "remap \<lparr>la = 1, lb = 0, lc = 0\<rparr> \<lparr>la = 0, lb = 1, lc = 0\<rparr> \<lparr>lv_s = 1, lv_t = 0\<rparr>
     = \<lparr>lv_s = 0, lv_t = - 1\<rparr> \<and>
   map_line \<lparr>la = 0, lb = 1, lc = 0\<rparr> (unmap \<lparr>la = 1, lb = 0, lc = 0\<rparr> \<lparr>lv_s = 1, lv_t = 0\<rparr>)
     = \<lparr>lv_s = 0, lv_t = 1\<rparr>"
  by (simp add: remap_def remapc_def map_line_def unmap_def unmapc_def)

subsection \<open>C8: the threshold given to the constructor\<close>

text \<open>
  C8 says that the constructor rejects a threshold that is not positive.  The constructor
  has no check of its argument: with the threshold \<open>-1\<close> on an empty path it returns a
  simplifier whose \<open>thresholdSq\<close> is 1.
\<close>

theorem constructor_accepts_negative_threshold:
  "(- 1 :: real) \<le> 0 \<and> PathSimplifier_new [] (- 1) = Some (run_state [] 1 [] [])"
  using new_run[of "- 1"] by simp

text \<open>
  C8 as amended: for every path and every threshold, positive or not, the constructor
  returns a simplifier, and its \<open>thresholdSq\<close> is the square of the threshold.
\<close>

theorem constructor_never_rejects:
  "\<exists>s. PathSimplifier_new pth threshold = Some s \<and> thresholdSq s = threshold * threshold"
  using PathSimplifier_new_total[of pth threshold] by blast

subsection \<open>C1: three collinear points\<close>

text \<open>
  C1 says that for the appended points (0,0), (5,0), (10,0) and threshold 1 the simplified
  path is [(0,0), (10,0)] in that order.  \<open>getSimplified\<close> walks the route from the last
  point back to the first and emits the vertices as it goes, so the result is not in the
  order of the original path.
\<close>

theorem collinear3_not_in_path_order:
  "Option.bind (appended 1 [pt 0 0, pt 5 0, pt 10 0]) getSimplified \<noteq> Some [pt 0 0, pt 10 0]"
  using collinear3_run collinear3_simplified by (simp add: collinear3_def pt_def)

text \<open>
  C1 as amended: for the appended points (0,0), (5,0), (10,0) and threshold 1 the
  simplified path is exactly [(10,0), (0,0)]: the two end points, the last appended point
  first.
\<close>

theorem collinear3_reversed:
  "Option.bind (appended 1 [pt 0 0, pt 5 0, pt 10 0]) getSimplified = Some [pt 10 0, pt 0 0]"
  using collinear3_run collinear3_simplified by (simp add: collinear3_def)

subsection \<open>C10: the predecessor of a tag\<close>

text \<open>
  C10. For every appended sequence the appends return, and for every \<open>j \<ge> 1\<close> the tag of
  point \<open>j\<close> has its \<open>next\<close> in \<open>[0, j - 1]\<close>; so the predecessor \<open>route_pred s j\<close> is
  strictly below \<open>j\<close>, the chain from the last index reaches index 0 in at most
  \<open>pathLength - 1\<close> steps, and \<open>getSimplified\<close> (whose loop walks that chain) returns.  The
  statement is about the state after all the appends; taking the sequence that ends with
  point \<open>j\<close> gives the state immediately after \<open>j\<close> is appended.
\<close>

theorem route_decreases_and_walk_terminates:
  "\<exists>s. appended thr ps = Some s \<and> length (tags s) = length ps \<and>
     (\<forall>j. 1 \<le> j \<and> j < length ps \<longrightarrow>
        0 \<le> tag_next (tags s ! j) \<and> tag_next (tags s ! j) < int j \<and> route_pred s j < j) \<and>
     (\<exists>out. getSimplified s = Some out) \<and>
     (ps \<noteq> [] \<longrightarrow> (\<exists>m \<le> length ps - 1. (route_pred s ^^ m) (length ps - 1) = 0))"
proof -
  from appended_attached[of thr ps] obtain s where
    s: "appended thr ps = Some s" "attached s" "path s = ps" by blast
  then have tl: "length (tags s) = length ps" and ok: "tags_ok (tags s)"
    by (simp_all add: attached_def)
  have a: "\<forall>j. 1 \<le> j \<and> j < length ps \<longrightarrow>
        0 \<le> tag_next (tags s ! j) \<and> tag_next (tags s ! j) < int j \<and> route_pred s j < j"
  proof (intro allI impI)
    fix j assume j: "1 \<le> j \<and> j < length ps"
    with tags_ok_next[OF ok, of j] tl have "0 \<le> tag_next (tags s ! j)" "tag_next (tags s ! j) < int j"
      by simp_all
    then show "0 \<le> tag_next (tags s ! j) \<and> tag_next (tags s ! j) < int j \<and> route_pred s j < j"
      unfolding route_pred_def by linarith
  qed
  from getSimplified_total[OF s(2)] have b: "\<exists>out. getSimplified s = Some out" by blast
  have c: "ps \<noteq> [] \<longrightarrow> (\<exists>m \<le> length ps - 1. (route_pred s ^^ m) (length ps - 1) = 0)"
  proof
    assume "ps \<noteq> []"
    then have jl: "length ps - 1 < length (tags s)" using tl by simp
    from tags_ok_dist[OF ok jl] have "nat (tag_dist (tags s ! (length ps - 1))) \<le> length ps - 1"
      by linarith
    with route_reaches_start[OF ok jl]
    show "\<exists>m \<le> length ps - 1. (route_pred s ^^ m) (length ps - 1) = 0" by blast
  qed
  from s(1) tl a b c show ?thesis by blast
qed

text \<open>C10 at the three collinear points, for the tag of the last point.\<close>

theorem route_decreases_and_walk_terminates_witness:
  "appended 1 collinear3 = Some collinear3_final \<and> length (tags collinear3_final) = length collinear3 \<and>
   (1::nat) \<le> 2 \<and> 2 < length collinear3 \<and>
   0 \<le> tag_next (tags collinear3_final ! 2) \<and> tag_next (tags collinear3_final ! 2) < int 2 \<and>
   route_pred collinear3_final 2 < 2 \<and>
   (\<exists>out. getSimplified collinear3_final = Some out) \<and>
   collinear3 \<noteq> [] \<and>
   (\<exists>m \<le> length collinear3 - 1. (route_pred collinear3_final ^^ m) (length collinear3 - 1) = 0)"
proof -
  have h: "(1::nat) \<le> 2 \<and> 2 < length collinear3" and ne: "collinear3 \<noteq> []"
    by (simp_all add: collinear3_def)
  from route_decreases_and_walk_terminates[of 1 collinear3] collinear3_run
  have "length (tags collinear3_final) = length collinear3"
    and a: "\<forall>j. 1 \<le> j \<and> j < length collinear3 \<longrightarrow>
        0 \<le> tag_next (tags collinear3_final ! j) \<and> tag_next (tags collinear3_final ! j) < int j \<and>
        route_pred collinear3_final j < j"
    and "\<exists>out. getSimplified collinear3_final = Some out"
    and c: "collinear3 \<noteq> [] \<longrightarrow>
      (\<exists>m \<le> length collinear3 - 1. (route_pred collinear3_final ^^ m) (length collinear3 - 1) = 0)"
    by simp_all
  with h ne collinear3_run a[rule_format, of 2] show ?thesis by simp
qed

subsection \<open>C3: the length of the simplified path\<close>

text \<open>
  C3. For every nonempty appended sequence \<open>getSimplified\<close> returns a path that is not
  longer than the original one: its length is the recorded distance of the last tag plus
  one, and along the predecessor chain the recorded distances do not decrease towards the
  end of the path (the predecessor's distance is at most the tag's own).
\<close>

theorem simplified_not_longer:
  assumes "ps \<noteq> []"
  shows "\<exists>s out. appended thr ps = Some s \<and> getSimplified s = Some out \<and>
     length out \<le> length ps \<and>
     length out = nat (tag_dist (tags s ! (length ps - 1))) + 1 \<and>
     (\<forall>j. 0 < j \<and> j < length ps \<longrightarrow> tag_dist (tags s ! route_pred s j) \<le> tag_dist (tags s ! j))"
proof -
  from appended_attached[of thr ps] obtain s where
    s: "appended thr ps = Some s" "attached s" "path s = ps" by blast
  then have tl: "length (tags s) = length ps" and ok: "tags_ok (tags s)"
    by (simp_all add: attached_def)
  from getSimplified_total[OF s(2)] s(3) assms obtain out where
    out: "getSimplified s = Some out" "length out = nat (tag_dist (tags s ! (length ps - 1))) + 1"
    by auto
  from assms tl have jl: "length ps - 1 < length (tags s)" by simp
  from tags_ok_dist[OF ok jl] out(2) assms have le: "length out \<le> length ps"
    by (cases ps) auto
  have "\<forall>j. 0 < j \<and> j < length ps \<longrightarrow> tag_dist (tags s ! route_pred s j) \<le> tag_dist (tags s ! j)"
  proof (intro allI impI)
    fix j assume "0 < j \<and> j < length ps"
    with tags_ok_next[OF ok, of j] tl
    show "tag_dist (tags s ! route_pred s j) \<le> tag_dist (tags s ! j)"
      by (simp add: route_pred_def)
  qed
  with s(1) out le show ?thesis by blast
qed

text \<open>C3 at the three collinear points.\<close>

theorem simplified_not_longer_witness:
  "collinear3 \<noteq> [] \<and> appended 1 collinear3 = Some collinear3_final \<and>
   getSimplified collinear3_final = Some [pt 10 0, pt 0 0] \<and>
   length [pt 10 0, pt 0 0] \<le> length collinear3 \<and>
   length [pt 10 0, pt 0 0] = nat (tag_dist (tags collinear3_final ! (length collinear3 - 1))) + 1 \<and>
   (0::nat) < 2 \<and> 2 < length collinear3 \<and>
   tag_dist (tags collinear3_final ! route_pred collinear3_final 2) \<le> tag_dist (tags collinear3_final ! 2)"
proof -
  have ne: "collinear3 \<noteq> []" and h: "(0::nat) < 2 \<and> 2 < length collinear3"
    by (simp_all add: collinear3_def)
  from simplified_not_longer[OF ne, of 1] collinear3_run collinear3_simplified
  have "length [pt 10 0, pt 0 0] \<le> length collinear3"
    and "length [pt 10 0, pt 0 0] = nat (tag_dist (tags collinear3_final ! (length collinear3 - 1))) + 1"
    and a: "\<forall>j. 0 < j \<and> j < length collinear3 \<longrightarrow>
       tag_dist (tags collinear3_final ! route_pred collinear3_final j) \<le> tag_dist (tags collinear3_final ! j)"
    by simp_all
  with ne h collinear3_run collinear3_simplified a[rule_format, of 2] show ?thesis by simp
qed

subsection \<open>C9: the end vertices of the simplified path\<close>



subsection \<open>C5: a cut index\<close>

text \<open>
  C5. Let the cut flag of tag \<open>i\<close> be set in the state reached by appending \<open>ps\<close>, and
  let further points \<open>qs\<close> be appended.  Then the flag stays set; the tag of every later
  index \<open>j\<close> has a predecessor above \<open>i\<close>, so \<open>i\<close> is never recorded again; and the trace of
  the latest scan (the sentinel, then one verdict for each candidate \<open>j - 1, j - 2, ...\<close>)
  has no verdict for a candidate below \<open>i\<close>, and if it has one for \<open>i\<close> that verdict is
  \<open>Cut\<close>: the scan stops at \<open>i\<close> before its admissibility tests.
\<close>

theorem cut_index_never_a_later_predecessor:
  assumes "appended thr ps = Some s" and "i < length ps" and "tag_cut (tags s ! i)"
    and "addPoints s qs = Some s'"
  shows "tag_cut (tags s' ! i) \<and>
     (\<forall>j. length ps \<le> j \<and> j < length ps + length qs \<longrightarrow>
         tag_next (tags s' ! j) \<noteq> int i \<and> int i < tag_next (tags s' ! j)) \<and>
     (qs \<noteq> [] \<longrightarrow> length (trace s') \<le> length ps + length qs - i \<and>
        (length (trace s') = length ps + length qs - i \<longrightarrow> last (trace s') = Cut))"
proof -
  from appended_attached[of thr ps] assms(1) have att: "attached s" and p: "path s = ps" by simp_all
  then have tl: "length (tags s) = length ps" by (simp add: attached_def)
  from addPoints_tags[OF att assms(4)] tl have len': "length (tags s') = length ps + length qs"
    by simp
  from addPoints_cut_kept[OF att _ assms(3,4)] assms(2) tl len' show ?thesis by auto
qed

text \<open>
  C5 on the path (0,0), (2,0), (1,1), (1,-1), whose third segment crosses the first, with
  one more point (1,-2) appended: index 0 is cut, and the scan of index 4 ends with \<open>Cut\<close>
  at candidate 0.
\<close>

theorem cut_index_never_a_later_predecessor_witness:
  "appended 100 crossing4 = Some crossing4_final \<and> (0::nat) < length crossing4 \<and>
   tag_cut (tags crossing4_final ! 0) \<and>
   addPoints crossing4_final [pt 1 (- 2)] = Some crossing5_final \<and>
   tag_cut (tags crossing5_final ! 0) \<and>
   length crossing4 \<le> 4 \<and> 4 < length crossing4 + length [pt 1 (- 2)] \<and>
   tag_next (tags crossing5_final ! 4) \<noteq> int 0 \<and> int 0 < tag_next (tags crossing5_final ! 4) \<and>
   [pt 1 (- 2)] \<noteq> [] \<and>
   length (trace crossing5_final) = length crossing4 + length [pt 1 (- 2)] - 0 \<and>
   last (trace crossing5_final) = Cut"
proof -
  have h2: "(0::nat) < length crossing4" by (simp add: crossing4_def)
  have h3: "tag_cut (tags crossing4_final ! 0)"
    by (simp add: crossing4_final_def run_state_def tag_def)
  have tr: "length (trace crossing5_final) = length crossing4 + length [pt 1 (- 2)] - 0"
    by (simp add: crossing5_final_def run_state_def crossing4_def)
  from cut_index_never_a_later_predecessor[OF crossing4_run h2 h3 crossing5_run]
  have a: "tag_cut (tags crossing5_final ! 0)"
    and b: "\<forall>j. length crossing4 \<le> j \<and> j < length crossing4 + length [pt 1 (- 2)] \<longrightarrow>
         tag_next (tags crossing5_final ! j) \<noteq> int 0 \<and> int 0 < tag_next (tags crossing5_final ! j)"
    and c: "[pt 1 (- 2)] \<noteq> [] \<longrightarrow>
        length (trace crossing5_final) \<le> length crossing4 + length [pt 1 (- 2)] - 0 \<and>
        (length (trace crossing5_final) = length crossing4 + length [pt 1 (- 2)] - 0 \<longrightarrow>
           last (trace crossing5_final) = Cut)"
    by blast+
  have r: "length crossing4 \<le> 4 \<and> 4 < length crossing4 + length [pt 1 (- 2)]"
    by (simp add: crossing4_def)
  from b[rule_format, OF r] c tr a h2 h3 r crossing4_run crossing5_run show ?thesis by simp
qed

subsection \<open>C7: the error of the box along a scan\<close>

text \<open>
  C7 says that along the backward scan for one appended point the value of \<open>error()\<close>
  never decreases from one \<open>extend\<close> to the next.  On the path (5, 0.9), (5, 1), (10, 0),
  (0, 0) with threshold 10, the scan for the last point passes the candidates 2, 1 and 0
  (none is cut, none exceeds the threshold); after the \<open>extend\<close> for candidate 1 the error
  is 4/9, after the \<open>extend\<close> for candidate 0 it is 441/1600: the line fitted to all four
  points lies nearer the middle of the box than the line fitted to the last three.
\<close>

theorem error_shrinks_during_scan:
  "scan_body shrink_path (sums_of shrink_path) 100 3 (pt 0 0) (Some 0) 2 shrink_st0
     = Some (Continue shrink_st1) \<and>
   scan_body shrink_path (sums_of shrink_path) 100 3 (pt 0 0) (Some 0) 1 shrink_st1
     = Some (Continue shrink_st2) \<and>
   scan_body shrink_path (sums_of shrink_path) 100 3 (pt 0 0) (Some 0) 0 shrink_st2
     = Some (Continue shrink_st3) \<and>
   ErrorBox_error (sc_errorBox shrink_st2) = 4 / 9 \<and>
   ErrorBox_error (sc_errorBox shrink_st3) = 441 / 1600 \<and>
   ErrorBox_error (sc_errorBox shrink_st3) < ErrorBox_error (sc_errorBox shrink_st2)"
  using shrink_step2 shrink_step1 shrink_step0 shrink_errors by simp

text \<open>
  C7 as amended.  In binary64, when \<open>extend(line, p)\<close> and the \<open>error()\<close> after it return
  finite values: the box after the call contains, in the coordinates of \<open>line\<close> as
  \<open>Line.map\<close> and \<open>Line.remapc\<close> compute them, the point \<open>p\<close> and the four corners of the box
  before the call; and \<open>error()\<close> is at least the \<open>error()\<close> of the box that holds any one
  of these five points alone.  The error is measured against the line of the latest call,
  so it can be smaller than the error before the call.
\<close>

theorem extend_holds_point_and_corners:
  assumes ext: "ErrorBox_extend64 box line p = Some box'"
    and err: "ErrorBox_error64 box' = Some e"
  shows "\<exists>l l00 l01 l10 l11.
           map_line64 line p = Some l \<and>
           remapc64 line (eb_line box) (eb_s0 box) (eb_t0 box) = Some l00 \<and>
           remapc64 line (eb_line box) (eb_s0 box) (eb_t1 box) = Some l01 \<and>
           remapc64 line (eb_line box) (eb_s1 box) (eb_t0 box) = Some l10 \<and>
           remapc64 line (eb_line box) (eb_s1 box) (eb_t1 box) = Some l11 \<and>
           (\<forall>q \<in> set [l, l00, l01, l10, l11].
              in_box box' q \<and>
              (\<exists>d. ErrorBox_error64 (ErrorBox_at line q) = Some d \<and> d \<le> e))"
proof -
  from ext obtain l l00 l01 l10 l11 where
    m: "map_line64 line p = Some l"
       "remapc64 line (eb_line box) (eb_s0 box) (eb_t0 box) = Some l00"
       "remapc64 line (eb_line box) (eb_s0 box) (eb_t1 box) = Some l01"
       "remapc64 line (eb_line box) (eb_s1 box) (eb_t0 box) = Some l10"
       "remapc64 line (eb_line box) (eb_s1 box) (eb_t1 box) = Some l11"
    and b': "box' = \<lparr>eb_line = line,
           eb_s0 = min5 (lv_s l) (lv_s l00) (lv_s l01) (lv_s l10) (lv_s l11),
           eb_s1 = max5 (lv_s l) (lv_s l00) (lv_s l01) (lv_s l10) (lv_s l11),
           eb_t0 = min5 (lv_t l) (lv_t l00) (lv_t l01) (lv_t l10) (lv_t l11),
           eb_t1 = max5 (lv_t l) (lv_t l00) (lv_t l01) (lv_t l10) (lv_t l11)\<rparr>"
    by (auto simp add: ErrorBox_extend64_def split: bind_splits)
  have ln: "eb_line box' = line" by (simp add: b')
  have inb: "in_box box' q" if "q \<in> set [l, l00, l01, l10, l11]" for q
    using that by (auto simp add: in_box_def b' min5_le max5_ge)
  have "\<exists>d. ErrorBox_error64 (ErrorBox_at line q) = Some d \<and> d \<le> e"
    if "q \<in> set [l, l00, l01, l10, l11]" for q
  proof -
    from inb[OF that] have "eb_t0 box' \<le> lv_t q" "lv_t q \<le> eb_t1 box'" by (simp_all add: in_box_def)
    from error64_at_le[OF err this] show ?thesis by (simp add: ln)
  qed
  with inb m show ?thesis by blast
qed

text \<open>
  C7 as amended, at a box in the frame of the line \<open>y = 0\<close> that is extended with the line
  \<open>x + y = 2\<close> and the point (3, 1): the error after the call is 2, the error of the point
  alone is 2, and the error of the corner with the new coordinates \<open>(- 1/2, 1/2)\<close> alone
  is \<open>1/2\<close>.
\<close>

theorem extend_holds_point_and_corners_witness:
  "ErrorBox_extend64 unit_box diag_line (pt 3 1) = Some diag_box \<and>
   ErrorBox_error64 diag_box = Some 2 \<and>
   map_line64 diag_line (pt 3 1) = Some \<lparr>lv_s = - 1, lv_t = 1\<rparr> \<and>
   in_box diag_box \<lparr>lv_s = - 1, lv_t = 1\<rparr> \<and>
   (\<exists>d. ErrorBox_error64 (ErrorBox_at diag_line \<lparr>lv_s = - 1, lv_t = 1\<rparr>) = Some d \<and> d \<le> 2) \<and>
   ErrorBox_error64 (ErrorBox_at diag_line \<lparr>lv_s = - 1, lv_t = 1\<rparr>) = Some 2 \<and>
   remapc64 diag_line (eb_line unit_box) (eb_s0 unit_box) (eb_t1 unit_box)
     = Some \<lparr>lv_s = - (1 / 2), lv_t = 1 / 2\<rparr> \<and>
   in_box diag_box \<lparr>lv_s = - (1 / 2), lv_t = 1 / 2\<rparr> \<and>
   (\<exists>d. ErrorBox_error64 (ErrorBox_at diag_line \<lparr>lv_s = - (1 / 2), lv_t = 1 / 2\<rparr>) = Some d \<and> d \<le> 2) \<and>
   ErrorBox_error64 (ErrorBox_at diag_line \<lparr>lv_s = - (1 / 2), lv_t = 1 / 2\<rparr>) = Some (1 / 2)"
proof -
  from extend_holds_point_and_corners[OF diag_extend diag_error]
  obtain l l00 l01 l10 l11 where
    m: "map_line64 diag_line (pt 3 1) = Some l"
       "remapc64 diag_line (eb_line unit_box) (eb_s0 unit_box) (eb_t1 unit_box) = Some l01"
    and a: "\<forall>q \<in> set [l, l00, l01, l10, l11].
              in_box diag_box q \<and>
              (\<exists>d. ErrorBox_error64 (ErrorBox_at diag_line q) = Some d \<and> d \<le> 2)"
    by (elim exE conjE) (rule that; assumption)
  from m have l: "l = \<lparr>lv_s = - 1, lv_t = 1\<rparr>" "l01 = \<lparr>lv_s = - (1 / 2), lv_t = 1 / 2\<rparr>"
    by (simp_all add: diag_map diag_corners)
  from a have "in_box diag_box l \<and> (\<exists>d. ErrorBox_error64 (ErrorBox_at diag_line l) = Some d \<and> d \<le> 2)"
    "in_box diag_box l01 \<and> (\<exists>d. ErrorBox_error64 (ErrorBox_at diag_line l01) = Some d \<and> d \<le> 2)"
    by simp_all
  then have b: "in_box diag_box \<lparr>lv_s = - 1, lv_t = 1\<rparr>"
    "\<exists>d. ErrorBox_error64 (ErrorBox_at diag_line \<lparr>lv_s = - 1, lv_t = 1\<rparr>) = Some d \<and> d \<le> 2"
    "in_box diag_box \<lparr>lv_s = - (1 / 2), lv_t = 1 / 2\<rparr>"
    "\<exists>d. ErrorBox_error64 (ErrorBox_at diag_line \<lparr>lv_s = - (1 / 2), lv_t = 1 / 2\<rparr>) = Some d \<and> d \<le> 2"
    unfolding l by simp_all
  have c: "ErrorBox_error64 (ErrorBox_at diag_line \<lparr>lv_s = - 1, lv_t = 1\<rparr>) = Some 2"
    "ErrorBox_error64 (ErrorBox_at diag_line \<lparr>lv_s = - (1 / 2), lv_t = 1 / 2\<rparr>) = Some (1 / 2)"
    by (simp_all add: ErrorBox_at_def diag_line_def box64_defs num_eval num_quarter)
  from b c diag_extend diag_error diag_map diag_corners(2) show ?thesis by blast
qed

end
